theory Spec2Isabelle
  imports Main "HOL-Library.Char_ord" "HOL-Library.List_Lexorder" "HOL-Library.Sublist"
begin

section \<open>Python strings\<close>

text \<open>
  A Python \<open>str\<close> is modelled as a \<open>string\<close>. The characters of the model are the
  ASCII code points: \<open>py_isspace\<close> is \<open>str.isspace\<close> on them (tab, line feed, vertical
  tab, form feed, carriage return, the four separators 0x1C..0x1F and the space), and
  \<open>py_upper\<close>, \<open>py_lower\<close> change the 26 letters only.
\<close>

definition py_isspace :: "char \<Rightarrow> bool" where
  "py_isspace c = (c \<in> set [CHR 0x09, CHR 0x0A, CHR 0x0B, CHR 0x0C, CHR 0x0D,
                              CHR 0x1C, CHR 0x1D, CHR 0x1E, CHR 0x1F, CHR 0x20])"

definition py_strip :: "string \<Rightarrow> string" where
  \<comment> \<open>\<open>s.strip()\<close>\<close>
  "py_strip s = rev (dropWhile py_isspace (rev (dropWhile py_isspace s)))"

fun py_join :: "string \<Rightarrow> string list \<Rightarrow> string" where
  \<comment> \<open>\<open>sep.join(xs)\<close>\<close>
  "py_join sep [] = []"
| "py_join sep [x] = x"
| "py_join sep (x # y # ys) = x @ sep @ py_join sep (y # ys)"

definition digit_char :: "nat \<Rightarrow> char" where
  "digit_char d = char_of (48 + d)"

fun str_nat :: "nat \<Rightarrow> string" where
  \<comment> \<open>\<open>str(n)\<close> of a non-negative \<open>int\<close>: its decimal digits\<close>
  "str_nat n = (if n < 10 then [digit_char n] else str_nat (n div 10) @ [digit_char (n mod 10)])"

declare str_nat.simps [simp del]

definition ascii_lowercase :: string where
  "ascii_lowercase = ''abcdefghijklmnopqrstuvwxyz''"

definition ascii_uppercase :: string where
  "ascii_uppercase = ''ABCDEFGHIJKLMNOPQRSTUVWXYZ''"

definition upper_char :: "char \<Rightarrow> char" where
  "upper_char c = (case map_of (zip ascii_lowercase ascii_uppercase) c of Some u \<Rightarrow> u | None \<Rightarrow> c)"

definition lower_char :: "char \<Rightarrow> char" where
  "lower_char c = (case map_of (zip ascii_uppercase ascii_lowercase) c of Some l \<Rightarrow> l | None \<Rightarrow> c)"

definition py_upper :: "string \<Rightarrow> string" where
  \<comment> \<open>\<open>s.upper()\<close>\<close>
  "py_upper s = map upper_char s"

definition py_lower :: "string \<Rightarrow> string" where
  \<comment> \<open>\<open>s.lower()\<close>\<close>
  "py_lower s = map lower_char s"

text \<open>
  \<open>s.title()\<close>: a letter that follows a letter is lowered, every other letter is raised;
  the flag says whether the previous character was a letter.
\<close>

fun title_from :: "bool \<Rightarrow> string \<Rightarrow> string" where
  "title_from previous_is_cased [] = []"
| "title_from previous_is_cased (c # cs) =
     (if c \<in> set ascii_lowercase \<or> c \<in> set ascii_uppercase then
        (if previous_is_cased then lower_char c else upper_char c) # title_from True cs
      else c # title_from False cs)"

definition py_title :: "string \<Rightarrow> string" where
  "py_title s = title_from False s"

text \<open>
  \<open>pathlib\<close>: with \<open>i = name.rfind('.')\<close>, the suffix of a file name is \<open>name[i:]\<close> and its
  stem \<open>name[:i]\<close> when \<open>0 < i < len(name) - 1\<close>; otherwise the suffix is empty and the
  stem is the name.
\<close>

definition rfind_dot :: "string \<Rightarrow> nat option" where
  "rfind_dot name =
     (if CHR ''.'' \<in> set name
      then Some (length name - 1 - length (takeWhile (\<lambda>c. c \<noteq> CHR ''.'') (rev name)))
      else None)"

definition path_suffix :: "string \<Rightarrow> string" where
  "path_suffix name =
     (case rfind_dot name of
        Some i \<Rightarrow> if 0 < i \<and> i < length name - 1 then drop i name else []
      | None \<Rightarrow> [])"

definition path_stem :: "string \<Rightarrow> string" where
  "path_stem name =
     (case rfind_dot name of
        Some i \<Rightarrow> if 0 < i \<and> i < length name - 1 then take i name else name
      | None \<Rightarrow> name)"

section \<open>The Section model\<close>

text \<open>
  Every extractor builds its sections as dictionaries with exactly the keys
  \<open>heading\<close>, \<open>level\<close> and \<open>content\<close>.
\<close>

record Section =
  heading :: string
  level :: int
  content :: string

section \<open>Exceptions\<close>

text \<open>
  The exceptions of the pipeline. \<open>RuntimeError\<close> and \<open>UnsupportedOscalType\<close> are the two
  that \<open>_normalize_file\<close> catches around extraction, \<open>OSError\<close> the one it catches around
  the writers. \<open>TypeError\<close> and \<open>AttributeError\<close> are what Python raises when an operation
  meets a value of the wrong type and \<open>KeyError\<close> what a missing dictionary key raises;
  no handler of the module names them.
\<close>

datatype exn =
    RuntimeError string
  | UnsupportedOscalType string
  | OSError string
  | TypeError
  | AttributeError
  | KeyError
  | NotModelled

text \<open>
  \<open>NotModelled\<close> is no exception of Python: it marks the two places where the model does
  not say what the code does (the text Python prints for a title that is not a string, and
  the order \<open>sorted\<close> gives to two or more control ids that are not all strings).
\<close>

definition bind_exn :: "exn + 'a \<Rightarrow> ('a \<Rightarrow> exn + 'b) \<Rightarrow> exn + 'b" where
  \<comment> \<open>one statement after another: an exception of the first ends the function\<close>
  "bind_exn m f = (case m of Inl e \<Rightarrow> Inl e | Inr x \<Rightarrow> f x)"

lemma bind_exn_cong [fundef_cong]:
  "m = m' \<Longrightarrow> (\<And>x. m' = Inr x \<Longrightarrow> f x = f' x) \<Longrightarrow> bind_exn m f = bind_exn m' f'"
  by (auto simp: bind_exn_def split: sum.splits)

lemma bind_exn_simps [simp]:
  "bind_exn (Inl e) f = Inl e" "bind_exn (Inr x) f = f x"
  by (simp_all add: bind_exn_def)

section \<open>PDF extraction\<close>

text \<open>
  What pymupdf gives for a path: \<open>fitz.open\<close> fails with a message, or opens a document
  whose pages each answer \<open>get_text()\<close> with a text or fail with a message; \<open>doc.close()\<close>
  may fail too.
\<close>

type_synonym pdf_page = "string + string"

datatype pdf_file =
    OpenFails string
  | Opened "pdf_page list" "string option"

definition page_section :: "nat \<Rightarrow> string \<Rightarrow> Section" where
  "page_section page_num text = \<lparr>heading = ''Page '' @ str_nat page_num, level = 1, content = text\<rparr>"

text \<open>The loop \<open>for page_num, page in enumerate(doc, 1)\<close>; \<open>Inl\<close> is the exception's message.\<close>

fun pdf_pages :: "nat \<Rightarrow> pdf_page list \<Rightarrow> Section list \<Rightarrow> string + Section list" where
  "pdf_pages page_num [] sections = Inr sections"
| "pdf_pages page_num (Inl exc # pages) sections = Inl exc"
| "pdf_pages page_num (Inr raw # pages) sections =
     (let text = py_strip raw in
      if text \<noteq> [] then pdf_pages (Suc page_num) pages (sections @ [page_section page_num text])
      else pdf_pages (Suc page_num) pages sections)"

definition pymupdf_failed :: "string \<Rightarrow> exn" where
  "pymupdf_failed exc = RuntimeError (''pymupdf failed: '' @ exc)"

fun extract_pdf :: "pdf_file \<Rightarrow> exn + Section list" where
  "extract_pdf (OpenFails exc) = Inl (pymupdf_failed exc)"
| "extract_pdf (Opened pages closing) =
     (case pdf_pages 1 pages [] of
        Inl exc \<Rightarrow> Inl (pymupdf_failed exc)
      | Inr sections \<Rightarrow>
          (case closing of
             Some exc \<Rightarrow> Inl (pymupdf_failed exc)
           | None \<Rightarrow> Inr sections))"

section \<open>HTML extraction\<close>

text \<open>
  The tree BeautifulSoup builds from the markup: a text node (\<open>NavigableString\<close>), a string
  that \<open>get_text\<close> leaves out (a comment, a doctype, the content of a script or style
  element), or a tag with its name, its attributes and its children. The parsed document
  \<open>soup\<close> is the list of its top-level nodes.
\<close>

datatype node =
    Text string
  | Comment string
  | Element string "(string \<times> string) list" "node list"

fun tag_name :: "node \<Rightarrow> string" where
  "tag_name (Element n attrs kids) = n"
| "tag_name _ = []"

fun tag_attr :: "node \<Rightarrow> string \<Rightarrow> string option" where
  "tag_attr (Element n attrs kids) k = map_of attrs k"
| "tag_attr _ k = None"

text \<open>The tags at and below a node, in document order.\<close>

fun tags_of :: "node \<Rightarrow> node list" where
  "tags_of (Element n attrs kids) = Element n attrs kids # concat (map tags_of kids)"
| "tags_of _ = []"

fun descendants :: "node \<Rightarrow> node list" where
  "descendants (Element n attrs kids) = concat (map tags_of kids)"
| "descendants _ = []"

definition soup_find :: "(node \<Rightarrow> bool) \<Rightarrow> node list \<Rightarrow> node option" where
  \<comment> \<open>\<open>soup.find(...)\<close>: the first tag of the document that matches\<close>
  "soup_find P soup = List.find P (concat (map tags_of soup))"

definition find_all :: "string list \<Rightarrow> node \<Rightarrow> node list" where
  \<comment> \<open>\<open>tag.find_all(names)\<close>: every tag below \<open>tag\<close> whose name is one of \<open>names\<close>\<close>
  "find_all names tag = filter (\<lambda>e. tag_name e \<in> set names) (descendants tag)"

text \<open>The text nodes at and below a node, in document order.\<close>

fun strings :: "node \<Rightarrow> string list" where
  "strings (Text s) = [s]"
| "strings (Comment s) = []"
| "strings (Element n attrs kids) = concat (map strings kids)"

definition stripped_strings :: "node \<Rightarrow> string list" where
  "stripped_strings e = filter (\<lambda>s. s \<noteq> []) (map py_strip (strings e))"

definition get_text :: "string \<Rightarrow> node \<Rightarrow> string" where
  \<comment> \<open>\<open>tag.get_text(separator=sep, strip=True)\<close>\<close>
  "get_text sep e = py_join sep (stripped_strings e)"

definition soup_get_text :: "string \<Rightarrow> node list \<Rightarrow> string" where
  \<comment> \<open>\<open>soup.get_text(separator=sep, strip=True)\<close>\<close>
  "soup_get_text sep soup = py_join sep (concat (map stripped_strings soup))"

definition HEADING_TAGS :: "string list" where
  "HEADING_TAGS = [''h1'', ''h2'', ''h3'', ''h4'']"

definition CONTENT_TAGS :: "string list" where
  "CONTENT_TAGS = [''p'', ''li'', ''td'', ''th'', ''figcaption'', ''blockquote'']"

definition find_container :: "node list \<Rightarrow> node option" where
  "find_container soup =
     (case soup_find (\<lambda>e. tag_name e = ''main'') soup of
        Some tag \<Rightarrow> Some tag
      | None \<Rightarrow>
     (case soup_find (\<lambda>e. tag_attr e ''role'' = Some ''main'') soup of
        Some tag \<Rightarrow> Some tag
      | None \<Rightarrow>
     (case soup_find (\<lambda>e. tag_name e = ''article'') soup of
        Some tag \<Rightarrow> Some tag
      | None \<Rightarrow> soup_find (\<lambda>e. tag_name e = ''body'') soup)))"

definition heading_rank :: "node \<Rightarrow> int" where
  \<comment> \<open>\<open>int(element.name[1])\<close>\<close>
  "heading_rank element = int (of_char (tag_name element ! 1)) - 48"

definition flush :: "Section list \<Rightarrow> string \<Rightarrow> int \<Rightarrow> string list \<Rightarrow> Section list" where
  "flush sections current_heading current_level current_lines =
     (let body = py_strip (py_join ''\<newline>'' current_lines) in
      if body \<noteq> [] then
        sections @ [\<lparr>heading = current_heading, level = current_level, content = body\<rparr>]
      else sections)"

text \<open>
  The loop over \<open>container.find_all(HEADING_TAGS | CONTENT_TAGS)\<close>, with its four
  variables; it ends with the flush of the last section.
\<close>

fun walk :: "node list \<Rightarrow> Section list \<Rightarrow> string \<Rightarrow> int \<Rightarrow> string list \<Rightarrow> Section list" where
  "walk [] sections current_heading current_level current_lines =
     flush sections current_heading current_level current_lines"
| "walk (element # rest) sections current_heading current_level current_lines =
     (if tag_name element \<in> set HEADING_TAGS then
        walk rest (flush sections current_heading current_level current_lines)
          (get_text '' '' element) (heading_rank element) []
      else
        (let text = get_text '' '' element in
         if text \<noteq> [] then walk rest sections current_heading current_level (current_lines @ [text])
         else walk rest sections current_heading current_level current_lines))"

text \<open>
  \<open>_extract_html\<close>, from the file's name and stem and what reading and parsing it gave:
  \<open>Inl\<close> the message of the \<open>OSError\<close> of \<open>read_text\<close>, \<open>Inr\<close> the parsed document.
\<close>

definition extract_html :: "string \<Rightarrow> string \<Rightarrow> string + node list \<Rightarrow> exn + Section list" where
  "extract_html name stem html =
     (case html of
        Inl exc \<Rightarrow> Inl (RuntimeError (''Could not read '' @ name @ '': '' @ exc))
      | Inr soup \<Rightarrow>
          (case find_container soup of
             None \<Rightarrow>
               (let raw = soup_get_text ''\<newline>'' soup in
                Inr [\<lparr>heading = stem, level = 1, content = raw\<rparr>])
           | Some container \<Rightarrow>
               (let sections = walk (find_all (HEADING_TAGS @ CONTENT_TAGS) container) [] stem 1 [] in
                if sections = [] then
                  (let raw = get_text ''\<newline>'' container in
                   if raw \<noteq> [] then Inr [\<lparr>heading = stem, level = 1, content = raw\<rparr>]
                   else Inr sections)
                else Inr sections)))"

section \<open>JSON values\<close>

text \<open>
  What \<open>json.loads\<close> returns: \<open>None\<close>, a \<open>bool\<close>, a number (the model has the integers),
  a \<open>str\<close>, a \<open>list\<close> or a \<open>dict\<close>. A \<open>dict\<close> is the list of its items in insertion order;
  its keys are distinct, and a lookup takes the item of the key.
\<close>

datatype json =
    JNull
  | JBool bool
  | JNum int
  | JStr string
  | JArr "json list"
  | JObj "(string \<times> json) list"

fun py_truthy :: "json \<Rightarrow> bool" where
  \<comment> \<open>\<open>bool(v)\<close>\<close>
  "py_truthy JNull = False"
| "py_truthy (JBool b) = b"
| "py_truthy (JNum n) = (n \<noteq> 0)"
| "py_truthy (JStr s) = (s \<noteq> [])"
| "py_truthy (JArr xs) = (xs \<noteq> [])"
| "py_truthy (JObj kvs) = (kvs \<noteq> [])"

fun py_get :: "json \<Rightarrow> string \<Rightarrow> json \<Rightarrow> exn + json" where
  \<comment> \<open>\<open>v.get(k, d)\<close>: only a \<open>dict\<close> has the method\<close>
  "py_get (JObj kvs) k d = Inr (case map_of kvs k of Some v \<Rightarrow> v | None \<Rightarrow> d)"
| "py_get _ k d = Inl AttributeError"

fun py_iter :: "json \<Rightarrow> exn + json list" where
  \<comment> \<open>\<open>for x in v\<close>: the elements of a list, the keys of a dict, the characters of a str\<close>
  "py_iter (JArr xs) = Inr xs"
| "py_iter (JObj kvs) = Inr (map (\<lambda>kv. JStr (fst kv)) kvs)"
| "py_iter (JStr s) = Inr (map (\<lambda>c. JStr [c]) s)"
| "py_iter _ = Inl TypeError"

fun py_str :: "json \<Rightarrow> exn + string" where
  \<comment> \<open>the receiver of a method of \<open>str\<close> (\<open>strip\<close>, \<open>upper\<close>, \<open>split\<close>)\<close>
  "py_str (JStr s) = Inr s"
| "py_str _ = Inl AttributeError"

fun py_contains :: "string \<Rightarrow> json \<Rightarrow> exn + bool" where
  \<comment> \<open>\<open>k in v\<close> for a str \<open>k\<close>: a key of a dict, an element of a list, a substring of a str\<close>
  "py_contains k (JObj kvs) = Inr (map_of kvs k \<noteq> None)"
| "py_contains k (JArr xs) = Inr (JStr k \<in> set xs)"
| "py_contains k (JStr s) = Inr (sublist k s)"
| "py_contains k _ = Inl TypeError"

fun py_getitem :: "json \<Rightarrow> string \<Rightarrow> exn + json" where
  \<comment> \<open>\<open>v[k]\<close> for a str \<open>k\<close>\<close>
  "py_getitem (JObj kvs) k = (case map_of kvs k of Some v \<Rightarrow> Inr v | None \<Rightarrow> Inl KeyError)"
| "py_getitem _ k = Inl TypeError"

text \<open>The nesting depth of a value: the measure of the recursion through parts and controls.\<close>

fun jdepth :: "json \<Rightarrow> nat" where
  "jdepth (JArr xs) = Suc (foldr max (map jdepth xs) 0)"
| "jdepth (JObj kvs) = Suc (foldr max (map (\<lambda>kv. jdepth (snd kv)) kvs) 0)"
| "jdepth _ = 0"

definition list_depth :: "json list \<Rightarrow> nat" where
  "list_depth xs = foldr max (map jdepth xs) 0"

lemma list_depth_simps [simp]:
  "list_depth [] = 0" "list_depth (x # xs) = max (jdepth x) (list_depth xs)"
  by (simp_all add: list_depth_def)

lemma jdepth_map_of: "map_of kvs k = Some v \<Longrightarrow> jdepth v < jdepth (JObj kvs)"
  by (induction kvs) (auto split: if_splits simp: less_Suc_eq_le max_def)

lemma list_depth_iter:
  assumes "py_iter v = Inr xs"
  shows "list_depth xs \<le> jdepth v"
proof (cases v)
  case (JArr ys)
  with assms show ?thesis by (auto simp: list_depth_def)
next
  case (JObj kvs)
  moreover have "list_depth (map (\<lambda>kv. JStr (fst kv)) kvs) = 0"
    by (induction kvs) auto
  ultimately show ?thesis using assms by auto
next
  case (JStr s)
  moreover have "list_depth (map (\<lambda>c. JStr [c]) s) = 0"
    by (induction s) auto
  ultimately show ?thesis using assms by auto
qed (use assms in auto)

lemma children_depth:
  assumes "py_get v k (JArr []) = Inr ps" and "py_iter ps = Inr xs"
  shows "list_depth xs < jdepth v"
proof -
  from assms(1) obtain kvs where v: "v = JObj kvs"
    by (cases v) auto
  show ?thesis
  proof (cases "map_of kvs k")
    case None
    with assms v show ?thesis by auto
  next
    case (Some p)
    with assms v have "ps = p" by simp
    with Some have "jdepth ps < jdepth v" using v jdepth_map_of by blast
    with list_depth_iter[OF assms(2)] show ?thesis by simp
  qed
qed

section \<open>OSCAL JSON extraction\<close>

text \<open>\<open>_collect_prose\<close> and its loop over the sub-parts, which appends to \<open>lines\<close>.\<close>

function collect_prose :: "json \<Rightarrow> exn + string"
  and collect_subparts :: "json list \<Rightarrow> string list \<Rightarrow> exn + string list" where
  "collect_prose part =
     bind_exn (py_get part ''prose'' JNull) (\<lambda>p.
     bind_exn (py_str (if py_truthy p then p else JStr [])) (\<lambda>s.
       let prose = py_strip s;
           lines = (if prose \<noteq> [] then [prose] else [])
       in
     bind_exn (py_get part ''parts'' (JArr [])) (\<lambda>ps.
     bind_exn (py_iter ps) (\<lambda>subparts.
     bind_exn (collect_subparts subparts lines) (\<lambda>lines.
       Inr (py_join ''\<newline>'' lines))))))"
| "collect_subparts [] lines = Inr lines"
| "collect_subparts (subpart # rest) lines =
     bind_exn (collect_prose subpart) (\<lambda>sub.
       collect_subparts rest (if sub \<noteq> [] then lines @ [sub] else lines))"
  by pat_completeness auto
termination
  by (relation "inv_image (less_than <*lex*> less_than)
        (\<lambda>a. case a of Inl part \<Rightarrow> (jdepth part, 0)
                      | Inr (xs, lines) \<Rightarrow> (list_depth xs, Suc (length xs)))")
     (auto simp: children_depth less_Suc_eq_le max_def)

declare collect_prose.simps [simp del]

text \<open>
  The loop of \<open>_extract_control_sections\<close> over the control's parts, which appends the
  labelled blocks to \<open>text_parts\<close>.
\<close>

fun collect_text_parts :: "json list \<Rightarrow> string list \<Rightarrow> exn + string list" where
  "collect_text_parts [] text_parts = Inr text_parts"
| "collect_text_parts (part # rest) text_parts =
     bind_exn (py_get part ''name'' (JStr [])) (\<lambda>name.
       if name = JStr ''statement'' \<or> name = JStr ''guidance'' then
         bind_exn (collect_prose part) (\<lambda>prose.
         bind_exn (py_str name) (\<lambda>n.
           collect_text_parts rest
             (if prose \<noteq> [] then text_parts @ [''**'' @ py_title n @ ''**'' @ ''\<newline>'' @ prose]
              else text_parts)))
       else collect_text_parts rest text_parts)"

fun format_heading :: "string \<Rightarrow> json \<Rightarrow> exn + string" where
  \<comment> \<open>\<open>f"{cid}: {title}" if cid else title\<close>, for a title that is a str\<close>
  "format_heading cid (JStr title) = Inr (if cid \<noteq> [] then cid @ '': '' @ title else title)"
| "format_heading cid _ = Inl NotModelled"

text \<open>\<open>_extract_control_sections\<close> and its loop over the enhancements.\<close>

function extract_control_sections :: "json \<Rightarrow> int \<Rightarrow> exn + Section list"
  and extract_enhancements :: "json list \<Rightarrow> int \<Rightarrow> Section list \<Rightarrow> exn + Section list" where
  "extract_control_sections control lvl =
     bind_exn (py_get control ''id'' (JStr [])) (\<lambda>i.
     bind_exn (py_str i) (\<lambda>i.
       let cid = py_upper i in
     bind_exn (py_get control ''title'' (JStr [])) (\<lambda>title.
     bind_exn (format_heading cid title) (\<lambda>heading.
     bind_exn (py_get control ''parts'' (JArr [])) (\<lambda>ps.
     bind_exn (py_iter ps) (\<lambda>parts.
     bind_exn (collect_text_parts parts []) (\<lambda>text_parts.
       let content = py_join (''\<newline>'' @ ''\<newline>'') text_parts;
           sections = (if heading \<noteq> [] \<and> content \<noteq> []
                       then [\<lparr>heading = heading, level = lvl, content = content\<rparr>] else [])
       in
     bind_exn (py_get control ''controls'' (JArr [])) (\<lambda>cs.
     bind_exn (py_iter cs) (\<lambda>enhancements.
       extract_enhancements enhancements (lvl + 1) sections)))))))))"
| "extract_enhancements [] lvl sections = Inr sections"
| "extract_enhancements (enhancement # rest) lvl sections =
     bind_exn (extract_control_sections enhancement lvl) (\<lambda>more.
       extract_enhancements rest lvl (sections @ more))"
  by pat_completeness auto
termination
  by (relation "inv_image (less_than <*lex*> less_than)
        (\<lambda>a. case a of Inl (control, lvl) \<Rightarrow> (jdepth control, 0)
                      | Inr (xs, lvl, sections) \<Rightarrow> (list_depth xs, Suc (length xs)))")
     (auto simp: children_depth less_Suc_eq_le max_def)

declare extract_control_sections.simps [simp del]

text \<open>\<open>_extract_catalog\<close>: the loop over the groups and, in it, the loop over a group's controls.\<close>

fun catalog_controls :: "json list \<Rightarrow> Section list \<Rightarrow> exn + Section list" where
  "catalog_controls [] sections = Inr sections"
| "catalog_controls (control # rest) sections =
     bind_exn (extract_control_sections control 2) (\<lambda>more.
       catalog_controls rest (sections @ more))"

fun catalog_groups :: "json list \<Rightarrow> Section list \<Rightarrow> exn + Section list" where
  "catalog_groups [] sections = Inr sections"
| "catalog_groups (grp # rest) sections =
     bind_exn (py_get grp ''controls'' (JArr [])) (\<lambda>cs.
     bind_exn (py_iter cs) (\<lambda>controls.
     bind_exn (catalog_controls controls sections) (\<lambda>sections.
       catalog_groups rest sections)))"

definition extract_catalog :: "json \<Rightarrow> exn + Section list" where
  "extract_catalog catalog =
     bind_exn (py_get catalog ''groups'' (JArr [])) (\<lambda>gs.
     bind_exn (py_iter gs) (\<lambda>groups.
       catalog_groups groups []))"

text \<open>\<open>_extract_profile\<close>: the two nested loops that fill \<open>all_ids\<close>.\<close>

fun include_controls_ids :: "json list \<Rightarrow> json list \<Rightarrow> exn + json list" where
  "include_controls_ids [] all_ids = Inr all_ids"
| "include_controls_ids (ic # rest) all_ids =
     bind_exn (py_get ic ''with-ids'' (JArr [])) (\<lambda>w.
     bind_exn (py_iter w) (\<lambda>ids.
       include_controls_ids rest (all_ids @ ids)))"

fun imports_ids :: "json list \<Rightarrow> json list \<Rightarrow> exn + json list" where
  "imports_ids [] all_ids = Inr all_ids"
| "imports_ids (imp # rest) all_ids =
     bind_exn (py_get imp ''include-controls'' (JArr [])) (\<lambda>ics.
     bind_exn (py_iter ics) (\<lambda>ics.
     bind_exn (include_controls_ids ics all_ids) (\<lambda>all_ids.
       imports_ids rest all_ids)))"

fun the_str :: "json \<Rightarrow> string" where
  "the_str (JStr s) = s"
| "the_str _ = []"

fun is_str :: "json \<Rightarrow> bool" where
  "is_str (JStr s) = True"
| "is_str _ = False"

definition py_sorted :: "json list \<Rightarrow> exn + json list" where
  \<comment> \<open>\<open>sorted(all_ids)\<close>: strings in the order of their code points; nothing is compared
      in a list of one element\<close>
  "py_sorted xs =
     (if list_all is_str xs then Inr (map JStr (sort (map the_str xs)))
      else if length xs \<le> 1 then Inr xs
      else Inl NotModelled)"

text \<open>
  \<open>families.setdefault(family, []).append(cid)\<close> on the dictionary \<open>families\<close>, kept as the
  list of its items in insertion order.
\<close>

fun setdefault_append :: "(string \<times> string list) list \<Rightarrow> string \<Rightarrow> string \<Rightarrow> (string \<times> string list) list" where
  "setdefault_append [] family cid = [(family, [cid])]"
| "setdefault_append ((k, ids) # items) family cid =
     (if k = family then (k, ids @ [cid]) # items
      else (k, ids) # setdefault_append items family cid)"

definition family_of :: "string \<Rightarrow> string" where
  \<comment> \<open>\<open>cid.split("-")[0].upper()\<close>\<close>
  "family_of cid = py_upper (takeWhile (\<lambda>c. c \<noteq> CHR ''-'') cid)"

fun group_families :: "json list \<Rightarrow> (string \<times> string list) list \<Rightarrow> exn + (string \<times> string list) list" where
  "group_families [] families = Inr families"
| "group_families (cid # rest) families =
     bind_exn (py_str cid) (\<lambda>cid.
       group_families rest (setdefault_append families (family_of cid) cid))"

definition extract_profile :: "json \<Rightarrow> exn + Section list" where
  "extract_profile profile =
     bind_exn (py_get profile ''metadata'' (JObj [])) (\<lambda>metadata.
     bind_exn (py_get metadata ''title'' (JStr ''Unknown Profile'')) (\<lambda>title.
     bind_exn (py_get profile ''imports'' (JArr [])) (\<lambda>imports.
     bind_exn (py_iter imports) (\<lambda>imports.
     bind_exn (imports_ids imports []) (\<lambda>all_ids.
       if all_ids = [] then
         bind_exn (format_heading [] title) (\<lambda>title.
           Inr [\<lparr>heading = title, level = 1, content = ''No control IDs found in profile.''\<rparr>])
       else
         bind_exn (py_sorted all_ids) (\<lambda>sorted_ids.
         bind_exn (group_families sorted_ids []) (\<lambda>families.
         bind_exn (format_heading [] title) (\<lambda>title.
           Inr (\<lparr>heading = title, level = 1,
                 content = ''Total controls: '' @ str_nat (length all_ids) @ ''\<newline>'' @
                           ''Families: '' @ py_join '', '' (sort (map fst families))\<rparr> #
                map (\<lambda>(family, ids).
                       \<lparr>heading = family @ '' Controls'', level = 2, content = py_join '', '' ids\<rparr>)
                    (sort_key fst families))))))))))"

text \<open>
  \<open>_extract_oscal_json\<close>, from the file's name and what reading and parsing it gave: \<open>Inl\<close>
  the message of the exception, \<open>Inr\<close> the parsed value.
\<close>

definition extract_oscal_json :: "string \<Rightarrow> string + json \<Rightarrow> exn + Section list" where
  "extract_oscal_json name parsed =
     (case parsed of
        Inl exc \<Rightarrow> Inl (RuntimeError (''JSON parse failed: '' @ exc))
      | Inr data \<Rightarrow>
          bind_exn (py_contains ''catalog'' data) (\<lambda>is_catalog.
            if is_catalog then bind_exn (py_getitem data ''catalog'') extract_catalog
            else
          bind_exn (py_contains ''profile'' data) (\<lambda>is_profile.
            if is_profile then bind_exn (py_getitem data ''profile'') extract_profile
            else Inl (UnsupportedOscalType (''not a recognized OSCAL catalog or profile: '' @ name)))))"

section \<open>Output writers\<close>

definition write_markdown :: "Section list \<Rightarrow> string \<Rightarrow> string \<Rightarrow> string \<Rightarrow> string" where
  \<comment> \<open>the text \<open>_write_markdown\<close> writes to \<open>dest\<close>\<close>
  "write_markdown sections framework source_file extracted_at =
     py_join ''\<newline>''
       ([''---'',
         ''source_file: '' @ source_file,
         ''framework: '' @ framework,
         ''extracted_at: '' @ [CHR 0x22] @ extracted_at @ [CHR 0x22],
         ''---'',
         [],
         ''# '' @ path_stem source_file,
         []] @
        concat (map (\<lambda>s. [replicate (nat (min (level s + 1) 6)) CHR ''#'' @ '' '' @ heading s,
                          [], content s, []]) sections))"

definition section_json :: "Section \<Rightarrow> json" where
  "section_json s =
     JObj [(''heading'', JStr (heading s)), (''level'', JNum (level s)), (''content'', JStr (content s))]"

definition write_json :: "Section list \<Rightarrow> string \<Rightarrow> string \<Rightarrow> string \<Rightarrow> json" where
  \<comment> \<open>the value \<open>payload\<close> whose \<open>json.dumps\<close> text \<open>_write_json\<close> writes to \<open>dest\<close>\<close>
  "write_json sections framework source_file extracted_at =
     (let full_text = py_join (''\<newline>'' @ ''\<newline>'') (map content sections) in
      JObj [(''source_file'', JStr source_file),
            (''framework'', JStr framework),
            (''extracted_at'', JStr extracted_at),
            (''sections'', JArr (map section_json sections)),
            (''full_text'', JStr full_text)])"

section \<open>Per-file normalization\<close>

definition SKIP_SUBDIRS :: "string list" where
  "SKIP_SUBDIRS = [''disa-stigs'']"

definition PDF_EXTENSIONS :: "string list" where
  "PDF_EXTENSIONS = [''.pdf'']"

definition HTML_EXTENSIONS :: "string list" where
  "HTML_EXTENSIONS = [''.html'', ''.htm'']"

definition JSON_EXTENSIONS :: "string list" where
  "JSON_EXTENSIONS = [''.json'']"

definition SUPPORTED_EXTENSIONS :: "string list" where
  "SUPPORTED_EXTENSIONS = PDF_EXTENSIONS @ HTML_EXTENSIONS @ JSON_EXTENSIONS"

definition KNOWN_UNSUPPORTED :: "string list" where
  "KNOWN_UNSUPPORTED = [''.zip'', ''.doc'', ''.docx'', ''.xlsx'', ''.xls'', ''.xml'']"

definition IGNORE_NAMES :: "string list" where
  "IGNORE_NAMES = [''.compligator-state.json'', ''README.md'']"

text \<open>
  A path under a framework's source directory: its directories below that directory,
  its name, whether it is a file, and what each of the three libraries gives when it is
  asked to read the path.
\<close>

record source_path =
  parent :: "string list"
  name :: string
  is_file :: bool
  as_pdf :: pdf_file
  as_html :: "string + node list"
  as_json :: "string + json"

text \<open>
  The destination tree: what is stored at (subdirectory, file name). A Markdown artifact
  is its text, a JSON artifact the value whose \<open>json.dumps\<close> text it is.
\<close>

datatype artifact =
    MarkdownFile string
  | JsonFile json

type_synonym out_fs = "string \<times> string \<Rightarrow> artifact option"

text \<open>
  The environment of a run: the time \<open>datetime.now\<close> shows when a file is processed, and
  which \<open>mkdir\<close> and \<open>write_text\<close> calls fail with an \<open>OSError\<close> (its message).
\<close>

record env =
  now :: "string \<times> string \<Rightarrow> string"
  mkdir_error :: "string \<Rightarrow> string option"
  write_error :: "string \<times> string \<Rightarrow> string option"

definition dispatch_extract :: "string \<Rightarrow> source_path \<Rightarrow> exn + Section list" where
  "dispatch_extract ext p =
     (if ext \<in> set PDF_EXTENSIONS then extract_pdf (as_pdf p)
      else if ext \<in> set JSON_EXTENSIONS then extract_oscal_json (name p) (as_json p)
      else extract_html (name p) (path_stem (name p)) (as_html p))"

text \<open>
  \<open>_normalize_file\<close>: the pair (status, message) and the destination tree after the call,
  or the exception that leaves the function.
\<close>

definition normalize_file ::
  "env \<Rightarrow> source_path \<Rightarrow> string \<Rightarrow> string \<Rightarrow> bool \<Rightarrow> out_fs \<Rightarrow> exn + ((string \<times> string) \<times> out_fs)" where
  "normalize_file e p output_subdir framework force fs =
     (let ext = py_lower (path_suffix (name p)) in
      if ext \<in> set KNOWN_UNSUPPORTED then Inr ((''unsupported'', name p), fs)
      else if ext \<notin> set SUPPORTED_EXTENSIONS then Inr ((''unsupported'', name p), fs)
      else
        let stem = path_stem (name p);
            md_dest = (output_subdir, stem @ ''.md'');
            json_dest = (output_subdir, stem @ ''.json'')
        in
        if \<not> force \<and> fs md_dest \<noteq> None \<and> fs json_dest \<noteq> None then Inr ((''skipped'', name p), fs)
        else
          (case dispatch_extract ext p of
             Inl (UnsupportedOscalType msg) \<Rightarrow> Inr ((''unsupported'', name p), fs)
           | Inl (RuntimeError msg) \<Rightarrow> Inr ((''error'', msg), fs)
           | Inl exc \<Rightarrow> Inl exc
           | Inr sections \<Rightarrow>
               if sections = [] then Inr ((''error'', ''no text content extracted''), fs)
               else
                 let extracted_at = now e (output_subdir, name p) in
                 (case mkdir_error e output_subdir of
                    Some msg \<Rightarrow> Inl (OSError msg)
                  | None \<Rightarrow>
                 (case write_error e md_dest of
                    Some msg \<Rightarrow> Inr ((''error'', ''write failed: '' @ msg), fs)
                  | None \<Rightarrow>
                      let fs = fs(md_dest \<mapsto> MarkdownFile (write_markdown sections framework (name p) extracted_at)) in
                 (case write_error e json_dest of
                    Some msg \<Rightarrow> Inr ((''error'', ''write failed: '' @ msg), fs)
                  | None \<Rightarrow>
                      Inr ((''processed'', name p),
                           fs(json_dest \<mapsto> JsonFile (write_json sections framework (name p) extracted_at))))))))"

section \<open>The run over the source tree\<close>

record NormalizeResult =
  processed :: "string list"
  skipped :: "string list"
  errors :: "(string \<times> string) list"
  unsupported :: "string list"

record service =
  key :: string
  subdir :: string

text \<open>
  A framework's source directory: missing, not enumerable (\<open>exists\<close> or \<open>rglob\<close> raises an
  \<open>OSError\<close>), or the paths \<open>rglob("*")\<close> finds below it.
\<close>

datatype source_dir =
    Missing
  | Unreadable string
  | Listing "source_path list"

definition record_status :: "NormalizeResult \<Rightarrow> source_path \<Rightarrow> string \<Rightarrow> string \<Rightarrow> NormalizeResult" where
  "record_status result p status msg =
     (if status = ''processed'' then result\<lparr>processed := processed result @ [msg]\<rparr>
      else if status = ''skipped'' then result\<lparr>skipped := skipped result @ [msg]\<rparr>
      else if status = ''unsupported'' then result\<lparr>unsupported := unsupported result @ [msg]\<rparr>
      else result\<lparr>errors := errors result @ [(name p, msg)]\<rparr>)"

text \<open>The inner loop of \<open>normalize_all\<close>, over the sorted paths of one framework.\<close>

fun normalize_paths ::
  "env \<Rightarrow> service \<Rightarrow> bool \<Rightarrow> source_path list \<Rightarrow> NormalizeResult \<times> out_fs \<Rightarrow> exn + (NormalizeResult \<times> out_fs)" where
  "normalize_paths e svc force [] st = Inr st"
| "normalize_paths e svc force (p # rest) (result, fs) =
     (if \<not> is_file p then normalize_paths e svc force rest (result, fs)
      else if name p \<in> set IGNORE_NAMES \<or> take 1 (name p) = ''.'' then
        normalize_paths e svc force rest (result, fs)
      else
        (case normalize_file e p (subdir svc) (key svc) force fs of
           Inl exc \<Rightarrow> Inl exc
         | Inr ((status, msg), fs') \<Rightarrow>
             normalize_paths e svc force rest (record_status result p status msg, fs')))"

text \<open>The outer loop, over the registry \<open>SERVICES\<close>.\<close>

fun normalize_services ::
  "env \<Rightarrow> (string \<Rightarrow> source_dir) \<Rightarrow> bool \<Rightarrow> service list \<Rightarrow> NormalizeResult \<times> out_fs \<Rightarrow> exn + (NormalizeResult \<times> out_fs)" where
  "normalize_services e tree force [] st = Inr st"
| "normalize_services e tree force (svc # rest) st =
     (if subdir svc \<in> set SKIP_SUBDIRS then normalize_services e tree force rest st
      else
        (case tree (subdir svc) of
           Missing \<Rightarrow> normalize_services e tree force rest st
         | Unreadable msg \<Rightarrow> Inl (OSError msg)
         | Listing paths \<Rightarrow>
             (case normalize_paths e svc force (sort_key (\<lambda>p. parent p @ [name p]) paths) st of
                Inl exc \<Rightarrow> Inl exc
              | Inr st' \<Rightarrow> normalize_services e tree force rest st')))"

definition normalize_all ::
  "env \<Rightarrow> service list \<Rightarrow> (string \<Rightarrow> source_dir) \<Rightarrow> bool \<Rightarrow> out_fs \<Rightarrow> exn + (NormalizeResult \<times> out_fs)" where
  "normalize_all e SERVICES tree force fs =
     normalize_services e tree force SERVICES
       (\<lparr>processed = [], skipped = [], errors = [], unsupported = []\<rparr>, fs)"

section \<open>Definitions for the statements\<close>

subsection \<open>PDF pages\<close>

text \<open>The page numbers (1-based) of the pages whose trimmed text is not empty, in page order.\<close>

definition text_pages :: "string list \<Rightarrow> nat list" where
  "text_pages texts = filter (\<lambda>n. py_strip (texts ! (n - 1)) \<noteq> []) [1..<Suc (length texts)]"

subsection \<open>The accumulators of the HTML walk\<close>

text \<open>
  The walk as the specification tells it: the elements up to the next heading give their
  non-empty texts as lines to the current accumulator (heading, level, lines); a heading
  element opens a new accumulator with its text and rank; every accumulator whose joined,
  trimmed lines are not empty becomes a Section.
\<close>

definition is_heading :: "node \<Rightarrow> bool" where
  "is_heading e = (tag_name e \<in> set HEADING_TAGS)"

definition content_lines :: "node list \<Rightarrow> string list" where
  "content_lines els = filter (\<lambda>t. t \<noteq> []) (map (get_text '' '') els)"

function accumulators :: "string \<Rightarrow> int \<Rightarrow> string list \<Rightarrow> node list \<Rightarrow> (string \<times> int \<times> string list) list" where
  "accumulators h l ls els =
     (h, l, ls @ content_lines (takeWhile (\<lambda>e. \<not> is_heading e) els)) #
     (case dropWhile (\<lambda>e. \<not> is_heading e) els of
        [] \<Rightarrow> []
      | e # rest \<Rightarrow> accumulators (get_text '' '' e) (heading_rank e) [] rest)"
  by pat_completeness auto
termination
proof (relation "measure (\<lambda>(h, l, ls, els). length els)")
  fix h :: string and l :: int and ls :: "string list" and els :: "node list" and e rest
  assume "dropWhile (\<lambda>e. \<not> is_heading e) els = e # rest"
  then have "length (e # rest) \<le> length els"
    by (metis length_dropWhile_le)
  then show "((get_text '' '' e, heading_rank e, [], rest), (h, l, ls, els))
             \<in> measure (\<lambda>(h, l, ls, els). length els)"
    by simp
qed simp

declare accumulators.simps [simp del]

definition flushed :: "(string \<times> int \<times> string list) list \<Rightarrow> Section list" where
  "flushed accs =
     map (\<lambda>(h, l, ls). \<lparr>heading = h, level = l, content = py_strip (py_join ''\<newline>'' ls)\<rparr>)
       (filter (\<lambda>(h, l, ls). py_strip (py_join ''\<newline>'' ls) \<noteq> []) accs)"

subsection \<open>Whitespace-collapsed text\<close>

text \<open>
  The words of a string, as \<open>s.split()\<close> gives them: its maximal runs of characters that
  are not whitespace. A text is whitespace-collapsed when it is its words joined by one
  space, \<open>" ".join(s.split())\<close>: no whitespace at either end, and one space for every
  run of whitespace inside.
\<close>

fun split_words :: "string \<Rightarrow> string \<Rightarrow> string list" where
  \<comment> \<open>the words of \<open>cur @ s\<close>, where \<open>cur\<close> is the word read so far\<close>
  "split_words cur [] = (if cur = [] then [] else [cur])"
| "split_words cur (c # cs) =
     (if py_isspace c then (if cur = [] then split_words [] cs else cur # split_words [] cs)
      else split_words (cur @ [c]) cs)"

definition py_split :: "string \<Rightarrow> string list" where
  \<comment> \<open>\<open>s.split()\<close>\<close>
  "py_split s = split_words [] s"

definition whitespace_collapsed :: "string \<Rightarrow> string" where
  "whitespace_collapsed s = py_join '' '' (py_split s)"

subsection \<open>OSCAL controls as the schema types them\<close>

text \<open>
  A part has an optional name, an optional prose and sub-parts; a control an optional id,
  an optional title, parts and enhancement controls. \<open>part_json\<close> and \<open>control_json\<close>
  say that a JSON value is such a part or control: an object whose \<open>name\<close>, \<open>prose\<close>,
  \<open>id\<close> and \<open>title\<close> are strings where present and whose \<open>parts\<close> and \<open>controls\<close> are
  arrays where present (other keys may be present too).

  \<open>prose_of\<close> is the prose of a part and of all its sub-parts, depth-first;
  \<open>labelled_blocks\<close> are the blocks of the parts named "statement" or "guidance" that have
  prose; \<open>control_sections\<close> is the Section of a control, if its heading and content are
  not empty, followed by the sections of its enhancements one level deeper.
\<close>

datatype part = Part "string option" "string option" "part list"

datatype control = Control "string option" "string option" "part list" "control list"

fun part_json :: "part \<Rightarrow> json \<Rightarrow> bool" where
  "part_json (Part nm prose subs) (JObj kvs) =
     (map_of kvs ''name'' = map_option JStr nm \<and>
      map_of kvs ''prose'' = map_option JStr prose \<and>
      (case map_of kvs ''parts'' of
         None \<Rightarrow> subs = []
       | Some (JArr xs) \<Rightarrow> list_all2 part_json subs xs
       | Some _ \<Rightarrow> False))"
| "part_json _ _ = False"

fun control_json :: "control \<Rightarrow> json \<Rightarrow> bool" where
  "control_json (Control cid title parts subs) (JObj kvs) =
     (map_of kvs ''id'' = map_option JStr cid \<and>
      map_of kvs ''title'' = map_option JStr title \<and>
      (case map_of kvs ''parts'' of
         None \<Rightarrow> parts = []
       | Some (JArr xs) \<Rightarrow> list_all2 part_json parts xs
       | Some _ \<Rightarrow> False) \<and>
      (case map_of kvs ''controls'' of
         None \<Rightarrow> subs = []
       | Some (JArr xs) \<Rightarrow> list_all2 control_json subs xs
       | Some _ \<Rightarrow> False))"
| "control_json _ _ = False"

fun prose_of :: "part \<Rightarrow> string" where
  "prose_of (Part nm prose subs) =
     py_join ''\<newline>''
       (filter (\<lambda>s. s \<noteq> []) (py_strip (case prose of None \<Rightarrow> [] | Some p \<Rightarrow> p) # map prose_of subs))"

fun part_label :: "part \<Rightarrow> string option" where
  "part_label (Part nm prose subs) =
     (if nm = Some ''statement'' then Some ''Statement''
      else if nm = Some ''guidance'' then Some ''Guidance''
      else None)"

definition labelled_blocks :: "part list \<Rightarrow> string list" where
  "labelled_blocks parts =
     concat (map (\<lambda>p. case part_label p of
                         None \<Rightarrow> []
                       | Some label \<Rightarrow>
                           if prose_of p \<noteq> [] then [''**'' @ label @ ''**'' @ ''\<newline>'' @ prose_of p]
                           else []) parts)"

fun control_sections :: "control \<Rightarrow> int \<Rightarrow> Section list" where
  "control_sections (Control cid title parts subs) lvl =
     (let i = py_upper (case cid of None \<Rightarrow> [] | Some i \<Rightarrow> i);
          t = (case title of None \<Rightarrow> [] | Some t \<Rightarrow> t);
          h = (if i \<noteq> [] then i @ '': '' @ t else t);
          c = py_join (''\<newline>'' @ ''\<newline>'') (labelled_blocks parts)
      in (if h \<noteq> [] \<and> c \<noteq> [] then [\<lparr>heading = h, level = lvl, content = c\<rparr>] else []) @
         concat (map (\<lambda>sub. control_sections sub (lvl + 1)) subs))"


subsection \<open>OSCAL profiles as the schema types them\<close>

text \<open>
  A profile has an optional title and imports; an import has include-controls entries;
  each entry lists control ids under \<open>with-ids\<close>. \<open>profile_json title imports j\<close> says
  that the JSON value \<open>j\<close> is such a profile (absent lists are empty; other keys may be
  present).

  \<open>profile_sections\<close> is the result the specification describes for the title and the
  list of all referenced ids, in the order of the document and with repetitions.
  \<open>families_of fams ids\<close> says that the dictionary \<open>fams\<close> groups \<open>ids\<close> by family.
\<close>

fun with_ids_json :: "string list \<Rightarrow> json \<Rightarrow> bool" where
  "with_ids_json ids (JObj kvs) =
     (case map_of kvs ''with-ids'' of
        None \<Rightarrow> ids = []
      | Some v \<Rightarrow> v = JArr (map JStr ids))"
| "with_ids_json ids _ = False"

fun import_json :: "string list list \<Rightarrow> json \<Rightarrow> bool" where
  "import_json ics (JObj kvs) =
     (case map_of kvs ''include-controls'' of
        None \<Rightarrow> ics = []
      | Some (JArr xs) \<Rightarrow> list_all2 with_ids_json ics xs
      | Some _ \<Rightarrow> False)"
| "import_json ics _ = False"

fun profile_json :: "string option \<Rightarrow> string list list list \<Rightarrow> json \<Rightarrow> bool" where
  "profile_json title imports (JObj kvs) =
     ((case map_of kvs ''metadata'' of
         None \<Rightarrow> title = None
       | Some (JObj m) \<Rightarrow> map_of m ''title'' = map_option JStr title
       | Some _ \<Rightarrow> False) \<and>
      (case map_of kvs ''imports'' of
         None \<Rightarrow> imports = []
       | Some (JArr xs) \<Rightarrow> list_all2 import_json imports xs
       | Some _ \<Rightarrow> False))"
| "profile_json title imports _ = False"

definition profile_sections :: "string option \<Rightarrow> string list \<Rightarrow> Section list" where
  "profile_sections title ids =
     (let t = (case title of None \<Rightarrow> ''Unknown Profile'' | Some t \<Rightarrow> t) in
      if ids = [] then [\<lparr>heading = t, level = 1, content = ''No control IDs found in profile.''\<rparr>]
      else
        let sorted_ids = sort ids;
            families = sort (remdups (map family_of ids))
        in \<lparr>heading = t, level = 1,
             content = ''Total controls: '' @ str_nat (length ids) @ ''\<newline>'' @
                       ''Families: '' @ py_join '', '' families\<rparr> #
           map (\<lambda>f. \<lparr>heading = f @ '' Controls'', level = 2,
                       content = py_join '', '' (filter (\<lambda>i. family_of i = f) sorted_ids)\<rparr>)
               families)"

definition families_of :: "(string \<times> string list) list \<Rightarrow> string list \<Rightarrow> bool" where
  "families_of fams ids =
     (distinct (map fst fams) \<and> set (map fst fams) = family_of ` set ids \<and>
      (\<forall>k\<in>family_of ` set ids. map_of fams k = Some (filter (\<lambda>i. family_of i = k) ids)))"

subsection \<open>Files of a run\<close>

text \<open>
  \<open>visited p\<close>: the walk does not pass over the path \<open>p\<close> (it is a file, its name is not
  ignored and not hidden). \<open>supported n\<close>: the extension of the name \<open>n\<close> is one of the
  supported extensions. \<open>has_both fs sub n\<close>: both destination artifacts of a file named
  \<open>n\<close> exist in the destination subdirectory \<open>sub\<close>. \<open>walked svcs tree svc p\<close>: the run
  over the registry \<open>svcs\<close> and the source tree \<open>tree\<close> visits \<open>p\<close> in the directory of the
  framework \<open>svc\<close>.
\<close>

definition visited :: "source_path \<Rightarrow> bool" where
  "visited p = (is_file p \<and> name p \<notin> set IGNORE_NAMES \<and> take 1 (name p) \<noteq> ''.'')"

definition supported :: "string \<Rightarrow> bool" where
  "supported n = (py_lower (path_suffix n) \<notin> set KNOWN_UNSUPPORTED
                  \<and> py_lower (path_suffix n) \<in> set SUPPORTED_EXTENSIONS)"

definition has_both :: "out_fs \<Rightarrow> string \<Rightarrow> string \<Rightarrow> bool" where
  "has_both fs sub n = (fs (sub, path_stem n @ ''.md'') \<noteq> None \<and> fs (sub, path_stem n @ ''.json'') \<noteq> None)"

definition walked :: "service list \<Rightarrow> (string \<Rightarrow> source_dir) \<Rightarrow> service \<Rightarrow> source_path \<Rightarrow> bool" where
  "walked svcs tree svc p =
     (svc \<in> set svcs \<and> subdir svc \<notin> set SKIP_SUBDIRS \<and>
      (case tree (subdir svc) of Listing paths \<Rightarrow> p \<in> set paths \<and> visited p | _ \<Rightarrow> False))"

subsection \<open>Occurrences of a text\<close>

text \<open>
  The number of positions of \<open>s\<close> at which \<open>t\<close> occurs, and what \<open>strip\<close> leaves of a
  string that is not all whitespace: a string that neither starts nor ends with whitespace.
\<close>

definition occurrences :: "string \<Rightarrow> string \<Rightarrow> nat" where
  "occurrences t s = length (filter (\<lambda>i. take (length t) (drop i s) = t) [0..<Suc (length s)])"

definition trimmed :: "string \<Rightarrow> bool" where
  "trimmed s = (s \<noteq> [] \<and> \<not> py_isspace (hd s) \<and> \<not> py_isspace (last s))"

subsection \<open>Reading a JSON artifact back\<close>

text \<open>
  The sections of a JSON artifact, as a reader of the artifact gets them: the array under
  \<open>sections\<close>, each element an object with a string \<open>heading\<close>, an integer \<open>level\<close> and a
  string \<open>content\<close>. \<open>json.dumps\<close> and \<open>json.loads\<close> are taken as inverse on the values
  the writer produces, so an artifact is read back as the value that was written.
\<close>

fun json_section :: "json \<Rightarrow> Section option" where
  "json_section (JObj kvs) =
     (case (map_of kvs ''heading'', map_of kvs ''level'', map_of kvs ''content'') of
        (Some (JStr h), Some (JNum l), Some (JStr c)) \<Rightarrow> Some \<lparr>heading = h, level = l, content = c\<rparr>
      | _ \<Rightarrow> None)"
| "json_section _ = None"

fun all_some :: "'a option list \<Rightarrow> 'a list option" where
  "all_some [] = Some []"
| "all_some (None # xs) = None"
| "all_some (Some x # xs) = map_option ((#) x) (all_some xs)"

definition artifact_sections :: "json \<Rightarrow> Section list option" where
  "artifact_sections payload =
     (case payload of
        JObj kvs \<Rightarrow> (case map_of kvs ''sections'' of
                      Some (JArr xs) \<Rightarrow> all_some (map json_section xs)
                    | _ \<Rightarrow> None)
      | _ \<Rightarrow> None)"

subsection \<open>Concrete inputs\<close>

definition intro_main :: node where
  \<comment> \<open>\<open><main><h1>Intro</h1><p>Hello</p><h2>Details</h2><p>World</p></main>\<close>\<close>
  "intro_main = Element ''main'' []
     [Element ''h1'' [] [Text ''Intro''], Element ''p'' [] [Text ''Hello''],
      Element ''h2'' [] [Text ''Details''], Element ''p'' [] [Text ''World'']]"

definition spaced_main :: node where
  \<comment> \<open>\<open><main><p>Hello\n   big   world</p></main>\<close>, with a line feed and three spaces after
      \<open>Hello\<close> and three spaces after \<open>big\<close>\<close>
  "spaced_main = Element ''main'' [] [Element ''p'' [] [Text ''Hello\<newline>   big   world'']]"

definition list_item_main :: node where
  \<comment> \<open>\<open><main><ul><li>Item <p>detail</p></li></ul></main>\<close>\<close>
  "list_item_main = Element ''main'' []
     [Element ''ul'' [] [Element ''li'' [] [Text ''Item '', Element ''p'' [] [Text ''detail'']]]]"

definition heading_between_main :: node where
  \<comment> \<open>\<open><main><li><h2>T</h2><p>x</p></li></main>\<close>\<close>
  "heading_between_main = Element ''main'' []
     [Element ''li'' [] [Element ''h2'' [] [Text ''T''], Element ''p'' [] [Text ''x'']]]"

definition empty_inner_main :: node where
  \<comment> \<open>\<open><main><li>a<p></p></li></main>\<close>\<close>
  "empty_inner_main = Element ''main'' [] [Element ''li'' [] [Text ''a'', Element ''p'' [] []]]"

definition ac_1 :: json where
  "ac_1 = JObj [(''id'', JStr ''ac-1''), (''title'', JStr ''Policy and Procedures''),
     (''parts'', JArr [JObj [(''name'', JStr ''statement''), (''prose'', JStr ''Do X.'')],
                       JObj [(''name'', JStr ''guidance''), (''prose'', JStr ''Additional guidance.'')]])]"

definition ac_1_control :: control where
  "ac_1_control = Control (Some ''ac-1'') (Some ''Policy and Procedures'')
     [Part (Some ''statement'') (Some ''Do X.'') [],
      Part (Some ''guidance'') (Some ''Additional guidance.'') []] []"

definition three_ids_profile :: json where
  "three_ids_profile = JObj [(''metadata'', JObj [(''title'', JStr ''Moderate Baseline'')]),
     (''imports'', JArr [JObj [(''href'', JStr ''#catalog''),
        (''include-controls'', JArr [JObj [(''with-ids'', JArr [JStr ''ac-2'', JStr ''ac-1'', JStr ''au-3''])]])]])]"

definition repeated_ids_profile :: json where
  "repeated_ids_profile = JObj [(''imports'', JArr
     [JObj [(''include-controls'', JArr [JObj [(''with-ids'', JArr [JStr ''si-4'', JStr ''ac-2''])]])],
      JObj [(''include-controls'', JArr [JObj [(''with-ids'', JArr [JStr ''ac-2''])], JObj []])]])]"

definition quiet_env :: env where
  \<comment> \<open>an environment in which no \<open>mkdir\<close> and no write fails\<close>
  "quiet_env = \<lparr>now = (\<lambda>_. ''2025-01-01T00:00:00''), mkdir_error = (\<lambda>_. None),
                 write_error = (\<lambda>_. None)\<rparr>"

definition nist :: service where
  "nist = \<lparr>key = ''nist'', subdir = ''nist-800-53''\<rparr>"

definition json_file :: "string \<Rightarrow> json \<Rightarrow> source_path" where
  \<comment> \<open>a file whose text is the JSON value \<open>v\<close>\<close>
  "json_file n v = \<lparr>parent = [], name = n, is_file = True, as_pdf = OpenFails ''no PDF header'',
                     as_html = Inr [], as_json = Inr v\<rparr>"

definition pdf_file_of :: "string \<Rightarrow> string list \<Rightarrow> source_path" where
  \<comment> \<open>a PDF file with the given page texts\<close>
  "pdf_file_of n pages = \<lparr>parent = [], name = n, is_file = True,
                           as_pdf = Opened (map Inr pages) None,
                           as_html = Inr [], as_json = Inl ''Expecting value''\<rparr>"

definition number_tree :: "string \<Rightarrow> source_dir" where
  \<comment> \<open>one framework directory with \<open>five.json\<close>, whose text is \<open>5\<close>, and a PDF file\<close>
  "number_tree d =
     (if d = ''nist-800-53''
      then Listing [pdf_file_of ''z.pdf'' [''text''], json_file ''five.json'' (JNum 5)]
      else Missing)"

definition z_pdf :: source_path where
  "z_pdf = pdf_file_of ''z.pdf'' [''text'']"

definition pdf_tree :: "string \<Rightarrow> source_dir" where
  "pdf_tree d = (if d = ''nist-800-53'' then Listing [z_pdf] else Missing)"

definition z_sections :: "Section list" where
  "z_sections = [\<lparr>heading = ''Page 1'', level = 1, content = ''text''\<rparr>]"

definition z_artifacts :: out_fs where
  "z_artifacts =
     [(''nist-800-53'', ''z.md'') \<mapsto>
        MarkdownFile (write_markdown z_sections ''nist'' ''z.pdf'' ''2025-01-01T00:00:00''),
      (''nist-800-53'', ''z.json'') \<mapsto>
        JsonFile (write_json z_sections ''nist'' ''z.pdf'' ''2025-01-01T00:00:00'')]"

definition notes_json :: source_path where
  \<comment> \<open>a file whose text is \<open>{"title": "Notes"}\<close>\<close>
  "notes_json = json_file ''notes.json'' (JObj [(''title'', JStr ''Notes'')])"

definition both_artifacts :: out_fs where
  "both_artifacts = [(''nist-800-53'', ''notes.md'') \<mapsto> MarkdownFile ''# notes'',
                     (''nist-800-53'', ''notes.json'') \<mapsto> JsonFile (JObj [])]"

section \<open>Properties of PDF extraction\<close>

lemma pdf_pages_all_read:
  "pdf_pages k (map Inr texts) acc =
     Inr (acc @ map (\<lambda>n. page_section (k + n) (py_strip (texts ! n)))
                  (filter (\<lambda>n. py_strip (texts ! n) \<noteq> []) [0..<length texts]))"
proof (induction texts arbitrary: k acc)
  case Nil
  then show ?case by simp
next
  case (Cons t texts)
  have shift: "[0..<length (t # texts)] = 0 # map Suc [0..<length texts]"
    by (simp add: upt_conv_Cons map_Suc_upt del: upt_Suc)
  show ?case
    unfolding shift by (simp add: Cons.IH Let_def filter_map o_def)
qed

lemma text_pages_shift:
  "text_pages texts = map Suc (filter (\<lambda>n. py_strip (texts ! n) \<noteq> []) [0..<length texts])"
proof -
  have "[1..<Suc (length texts)] = map Suc [0..<length texts]"
    by (simp add: map_Suc_upt)
  then show ?thesis
    by (simp add: text_pages_def filter_map o_def)
qed

lemma pdf_pages_read_failure:
  "pdf_pages k (map Inr texts @ Inl exc # rest) acc = Inl exc"
  by (induction texts arbitrary: k acc) (simp_all add: Let_def)

lemma length_text_pages:
  "length (text_pages texts) = length (filter (\<lambda>t. py_strip t \<noteq> []) texts)"
proof -
  have "filter (\<lambda>t. py_strip t \<noteq> []) texts
      = map ((!) texts) (filter (\<lambda>n. py_strip (texts ! n) \<noteq> []) [0..<length texts])"
    by (metis (no_types, lifting) filter_map map_nth o_def filter_cong)
  then show ?thesis
    by (simp add: text_pages_shift)
qed

text \<open>
  Claim C7. For a document of N pages of which exactly k have non-empty trimmed text,
  PDF extraction returns exactly k sections, in strictly increasing order of the 1-based
  page number, each with heading "Page n" for its page number n, level 1 and the page's
  trimmed text as content; a failure to open the document, to read a page or to close it
  gives the single error "pymupdf failed: cause" and no section.
\<close>

theorem extract_pdf_pages:
  "extract_pdf (Opened (map Inr texts) None)
     = Inr (map (\<lambda>n. \<lparr>heading = ''Page '' @ str_nat n, level = 1,
                        content = py_strip (texts ! (n - 1))\<rparr>) (text_pages texts))
   \<and> length (text_pages texts) = length (filter (\<lambda>t. py_strip t \<noteq> []) texts)
   \<and> sorted_wrt (<) (text_pages texts)
   \<and> set (text_pages texts) = {n. 1 \<le> n \<and> n \<le> length texts \<and> py_strip (texts ! (n - 1)) \<noteq> []}
   \<and> extract_pdf (OpenFails exc) = Inl (RuntimeError (''pymupdf failed: '' @ exc))
   \<and> extract_pdf (Opened (map Inr texts @ Inl exc # rest) closing)
       = Inl (RuntimeError (''pymupdf failed: '' @ exc))
   \<and> extract_pdf (Opened (map Inr texts) (Some exc)) = Inl (RuntimeError (''pymupdf failed: '' @ exc))"
proof -
  have "extract_pdf (Opened (map Inr texts) None)
     = Inr (map (\<lambda>n. \<lparr>heading = ''Page '' @ str_nat n, level = 1,
                        content = py_strip (texts ! (n - 1))\<rparr>) (text_pages texts))"
    by (simp add: pdf_pages_all_read text_pages_shift page_section_def o_def)
  moreover have "sorted_wrt (<) (text_pages texts)"
    unfolding text_pages_def by (rule sorted_wrt_filter) (simp add: sorted_wrt_upt del: upt_Suc)
  moreover have "set (text_pages texts)
      = {n. 1 \<le> n \<and> n \<le> length texts \<and> py_strip (texts ! (n - 1)) \<noteq> []}"
    by (auto simp: text_pages_def)
  moreover have "extract_pdf (Opened (map Inr texts @ Inl exc # rest) closing)
       = Inl (RuntimeError (''pymupdf failed: '' @ exc))"
    by (simp add: pdf_pages_read_failure pymupdf_failed_def)
  moreover have "extract_pdf (Opened (map Inr texts) (Some exc))
       = Inl (RuntimeError (''pymupdf failed: '' @ exc))"
    by (simp add: pdf_pages_all_read pymupdf_failed_def)
  ultimately show ?thesis
    by (simp add: length_text_pages pymupdf_failed_def)
qed

section \<open>Properties of HTML extraction\<close>

lemma flush_flushed: "flush secs h l ls = secs @ flushed [(h, l, ls)]"
  by (simp add: flush_def flushed_def Let_def)

lemma accumulators_Nil: "accumulators h l ls [] = [(h, l, ls)]"
  by (simp add: accumulators.simps content_lines_def)

lemma accumulators_heading:
  "is_heading e \<Longrightarrow> accumulators h l ls (e # rest)
     = (h, l, ls) # accumulators (get_text '' '' e) (heading_rank e) [] rest"
  by (simp add: accumulators.simps[of h l ls "e # rest"] content_lines_def)

lemma accumulators_content:
  assumes "\<not> is_heading e"
  shows "accumulators h l ls (e # rest)
     = accumulators h l (if get_text '' '' e \<noteq> [] then ls @ [get_text '' '' e] else ls) rest"
proof -
  let ?ls = "if get_text '' '' e \<noteq> [] then ls @ [get_text '' '' e] else ls"
  have "accumulators h l ls (e # rest)
      = (h, l, ls @ content_lines (e # takeWhile (\<lambda>e. \<not> is_heading e) rest)) #
        (case dropWhile (\<lambda>e. \<not> is_heading e) rest of
           [] \<Rightarrow> []
         | e # rest \<Rightarrow> accumulators (get_text '' '' e) (heading_rank e) [] rest)"
    using assms by (subst accumulators.simps) simp
  also have "\<dots> = accumulators h l ?ls rest"
    by (subst accumulators.simps[of h l ?ls rest]) (simp add: content_lines_def)
  finally show ?thesis .
qed

lemma walk_flushed:
  "walk els secs h l ls = secs @ flushed (accumulators h l ls els)"
proof (induction els arbitrary: secs h l ls)
  case Nil
  then show ?case by (simp add: accumulators_Nil flush_flushed)
next
  case (Cons e els)
  show ?case
  proof (cases "is_heading e")
    case True
    let ?more = "accumulators (get_text '' '' e) (heading_rank e) [] els"
    have "walk (e # els) secs h l ls
        = walk els (flush secs h l ls) (get_text '' '' e) (heading_rank e) []"
      using True by (simp add: is_heading_def)
    also have "\<dots> = flush secs h l ls @ flushed ?more"
      by (rule Cons.IH)
    also have "\<dots> = secs @ flushed ((h, l, ls) # ?more)"
      by (simp add: flush_def flushed_def Let_def)
    also have "(h, l, ls) # ?more = accumulators h l ls (e # els)"
      using accumulators_heading[OF True, of h l ls els] by simp
    finally show ?thesis .
  next
    case False
    let ?ls = "if get_text '' '' e \<noteq> [] then ls @ [get_text '' '' e] else ls"
    have "walk (e # els) secs h l ls = walk els secs h l ?ls"
      using False by (simp add: is_heading_def Let_def)
    also have "\<dots> = secs @ flushed (accumulators h l ?ls els)"
      by (rule Cons.IH)
    also have "accumulators h l ?ls els = accumulators h l ls (e # els)"
      using accumulators_content[OF False, of h l ls els] by simp
    finally show ?thesis .
  qed
qed

lemma find_container_intro: "find_container [intro_main] = Some intro_main"
  by (simp add: find_container_def soup_find_def intro_main_def)

lemma extract_html_intro:
  "extract_html ''intro.html'' ''intro'' (Inr [intro_main])
     = Inr [\<lparr>heading = ''Intro'', level = 1, content = ''Hello''\<rparr>,
            \<lparr>heading = ''Details'', level = 2, content = ''World''\<rparr>]"
  by (simp add: intro_main_def extract_html_def find_container_def soup_find_def find_all_def
        HEADING_TAGS_def CONTENT_TAGS_def get_text_def stripped_strings_def py_strip_def
        py_isspace_def flush_def heading_rank_def)

text \<open>
  Claim C6, with the visible text of an element as the code computes it. The visible text
  of an element is what \<open>get_text(separator=" ", strip=True)\<close> gives: its text nodes, each
  trimmed of the whitespace at its two ends, the empty ones left out, joined by one space;
  the whitespace inside a text node is kept as it is, so the text of an element with one
  text node is that node's trimmed string. With a content container chosen, the
  extractor's result is what the accumulators of the walk give: the heading and
  block-content descendants in document order, every content element's non-empty text one
  entry of the lines of the current accumulator (at first the fallback title at level 1),
  every heading element closing the accumulator and opening one with its own text and
  rank, and exactly the accumulators whose joined, trimmed lines are not empty emitted as
  Sections, the last one included (if none is emitted, the container's whole text under
  the fallback title). For the markup
  \<open><main><h1>Intro</h1><p>Hello</p><h2>Details</h2><p>World</p></main>\<close> the result is the
  two sections Intro (level 1, "Hello") and Details (level 2, "World").
\<close>

theorem extract_html_walk:
  "get_text '' '' element = py_join '' '' (filter (\<lambda>s. s \<noteq> []) (map py_strip (strings element)))
   \<and> get_text '' '' (Element n attrs [Text s]) = py_strip s
   \<and> content_lines els = filter (\<lambda>t. t \<noteq> []) (map (get_text '' '') els)
   \<and> (find_container soup = Some container \<longrightarrow>
      extract_html nm stem (Inr soup) =
        Inr (let sections = flushed (accumulators stem 1 []
                               (find_all (HEADING_TAGS @ CONTENT_TAGS) container))
             in if sections = [] then
                  (if get_text ''\<newline>'' container \<noteq> []
                   then [\<lparr>heading = stem, level = 1, content = get_text ''\<newline>'' container\<rparr>]
                   else [])
                else sections))
   \<and> extract_html ''intro.html'' ''intro''
        (Inr [Element ''main'' []
               [Element ''h1'' [] [Text ''Intro''], Element ''p'' [] [Text ''Hello''],
                Element ''h2'' [] [Text ''Details''], Element ''p'' [] [Text ''World'']]])
       = Inr [\<lparr>heading = ''Intro'', level = 1, content = ''Hello''\<rparr>,
              \<lparr>heading = ''Details'', level = 2, content = ''World''\<rparr>]"
proof -
  have "extract_html nm stem (Inr soup) =
        Inr (let sections = flushed (accumulators stem 1 []
                               (find_all (HEADING_TAGS @ CONTENT_TAGS) container))
             in if sections = [] then
                  (if get_text ''\<newline>'' container \<noteq> []
                   then [\<lparr>heading = stem, level = 1, content = get_text ''\<newline>'' container\<rparr>]
                   else [])
                else sections)"
    if "find_container soup = Some container"
    using that by (simp add: extract_html_def walk_flushed Let_def)
  then show ?thesis
    using extract_html_intro
    by (simp add: intro_main_def get_text_def stripped_strings_def content_lines_def)
qed

theorem extract_html_walk_witness:
  "find_container [intro_main] = Some intro_main
   \<and> extract_html ''intro.html'' ''intro'' (Inr [intro_main]) =
        Inr (let sections = flushed (accumulators ''intro'' 1 []
                               (find_all (HEADING_TAGS @ CONTENT_TAGS) intro_main))
             in if sections = [] then
                  (if get_text ''\<newline>'' intro_main \<noteq> []
                   then [\<lparr>heading = ''intro'', level = 1, content = get_text ''\<newline>'' intro_main\<rparr>]
                   else [])
                else sections)
   \<and> flushed (accumulators ''intro'' 1 [] (find_all (HEADING_TAGS @ CONTENT_TAGS) intro_main))
       = [\<lparr>heading = ''Intro'', level = 1, content = ''Hello''\<rparr>,
          \<lparr>heading = ''Details'', level = 2, content = ''World''\<rparr>]"
proof -
  have h: "find_container [intro_main] = Some intro_main"
    by (rule find_container_intro)
  have w: "extract_html ''intro.html'' ''intro'' (Inr [intro_main]) =
        Inr (let sections = flushed (accumulators ''intro'' 1 []
                               (find_all (HEADING_TAGS @ CONTENT_TAGS) intro_main))
             in if sections = [] then
                  (if get_text ''\<newline>'' intro_main \<noteq> []
                   then [\<lparr>heading = ''intro'', level = 1, content = get_text ''\<newline>'' intro_main\<rparr>]
                   else [])
                else sections)"
    using extract_html_walk[where soup = "[intro_main]" and container = intro_main
        and nm = "''intro.html''" and stem = "''intro''"] h by blast
  have "flushed (accumulators ''intro'' 1 [] (find_all (HEADING_TAGS @ CONTENT_TAGS) intro_main))
       = [\<lparr>heading = ''Intro'', level = 1, content = ''Hello''\<rparr>,
          \<lparr>heading = ''Details'', level = 2, content = ''World''\<rparr>]"
    using w extract_html_intro by (simp add: Let_def split: if_splits)
  with h w show ?thesis by blast
qed

text \<open>
  Claim C6, as stated, at a concrete input. In \<open><main><p>Hello\n   big   world</p></main>\<close>
  the paragraph has one text node, with a line feed and runs of three spaces inside. Its
  whitespace-collapsed text is "Hello big world"; the extractor gives the section the
  text node as it is, which is not a whitespace-collapsed text and holds a line feed, so
  the one content element gives two lines of the section's content.
\<close>

theorem content_text_not_collapsed:
  "extract_html ''page.html'' ''page'' (Inr [spaced_main])
     = Inr [\<lparr>heading = ''page'', level = 1, content = ''Hello\<newline>   big   world''\<rparr>]
   \<and> find_container [spaced_main] = Some spaced_main
   \<and> find_all (HEADING_TAGS @ CONTENT_TAGS) spaced_main
       = [Element ''p'' [] [Text ''Hello\<newline>   big   world'']]
   \<and> get_text '' '' (Element ''p'' [] [Text ''Hello\<newline>   big   world''])
       = ''Hello\<newline>   big   world''
   \<and> whitespace_collapsed (concat (strings (Element ''p'' [] [Text ''Hello\<newline>   big   world''])))
       = ''Hello big world''
   \<and> whitespace_collapsed ''Hello\<newline>   big   world'' \<noteq> ''Hello\<newline>   big   world''
   \<and> CHR 0x0A \<in> set ''Hello\<newline>   big   world''"
  by (simp add: spaced_main_def extract_html_def find_container_def soup_find_def find_all_def
        HEADING_TAGS_def CONTENT_TAGS_def get_text_def stripped_strings_def py_strip_def
        py_isspace_def flush_def heading_rank_def Let_def whitespace_collapsed_def py_split_def)

lemma occurrences_twice:
  assumes "t \<noteq> []"
  shows "2 \<le> occurrences t (a @ t @ b @ t @ c)"
proof -
  let ?s = "a @ t @ b @ t @ c"
  let ?P = "\<lambda>i. take (length t) (drop i ?s) = t"
  let ?i = "length a" and ?j = "length a + length t + length b"
  have i: "?P ?i" by simp
  have "drop ?j ?s = t @ c" by (simp add: drop_append)
  then have j: "?P ?j" by simp
  have ne: "?i \<noteq> ?j" using assms by simp
  have "{?i, ?j} \<subseteq> set (filter ?P [0..<Suc (length ?s)])"
    using i j by auto
  then have "card {?i, ?j} \<le> card (set (filter ?P [0..<Suc (length ?s)]))"
    by (intro card_mono) auto
  also have "\<dots> = length (filter ?P [0..<Suc (length ?s)])"
    by (intro distinct_card) simp
  finally show ?thesis using ne by (simp add: occurrences_def)
qed

lemma py_join_append:
  "xs \<noteq> [] \<Longrightarrow> ys \<noteq> [] \<Longrightarrow> py_join sep (xs @ ys) = py_join sep xs @ sep @ py_join sep ys"
  by (induction sep xs rule: py_join.induct) (auto simp: neq_Nil_conv)

lemma py_join_middle:
  "\<exists>a c. py_join sep (ps @ x # ss) = a @ x @ c"
proof (cases "ps = []")
  case True
  then show ?thesis
    by (cases ss) (auto intro: exI[of _ "[]"])
next
  case False
  then have "py_join sep (ps @ x # ss) = py_join sep ps @ sep @ py_join sep (x # ss)"
    by (simp add: py_join_append)
  moreover have "\<exists>c. py_join sep (x # ss) = x @ c"
    by (cases ss) auto
  ultimately show ?thesis
    by (metis append.assoc)
qed

lemma py_join_sublist:
  assumes "sublist xs ys" and "xs \<noteq> []"
  shows "sublist (py_join sep xs) (py_join sep ys)"
proof -
  from assms obtain ps ss where ys: "ys = ps @ xs @ ss"
    by (auto simp: sublist_def)
  have a: "sublist (py_join sep xs) (py_join sep (xs @ ss))"
    using assms(2) by (cases "ss = []") (simp_all add: py_join_append)
  have "sublist (py_join sep (xs @ ss)) (py_join sep (ps @ xs @ ss))"
  proof (cases "ps = []")
    case False
    then have "py_join sep (ps @ xs @ ss) = (py_join sep ps @ sep) @ py_join sep (xs @ ss)"
      using assms(2) by (simp add: py_join_append)
    then show ?thesis
      by (simp only: sublist_append_leftI)
  qed simp
  with a show ?thesis
    unfolding ys by (rule sublist_order.order.trans)
qed

lemma tags_of_elements: "e \<in> set (tags_of n) \<Longrightarrow> tags_of e = e # descendants e"
proof (induction n)
  case (Element nm attrs kids)
  then show ?case by auto
qed simp_all

lemma sublist_concat_member:
  assumes "x \<in> set xs"
  shows "sublist (f x) (concat (map f xs))"
proof -
  from assms obtain ys zs where "xs = ys @ x # zs"
    by (auto dest: split_list)
  then show ?thesis by simp
qed

lemma tags_of_sublist: "e \<in> set (tags_of n) \<Longrightarrow> sublist (tags_of e) (tags_of n)"
proof (induction n)
  case (Element nm attrs kids)
  show ?case
  proof (cases "e = Element nm attrs kids")
    case True
    then show ?thesis by simp
  next
    case False
    with Element.prems obtain k where k: "k \<in> set kids" "e \<in> set (tags_of k)"
      by auto
    then have "sublist (tags_of e) (tags_of k)"
      by (rule Element.IH)
    moreover have "sublist (tags_of k) (concat (map tags_of kids))"
      using k(1) by (rule sublist_concat_member)
    ultimately have "sublist (tags_of e) (concat (map tags_of kids))"
      by (rule sublist_order.order.trans)
    then show ?thesis
      by (auto simp: sublist_def intro: exI[of _ "_ # _"] Cons_eq_appendI)
  qed
qed simp_all

lemma descendants_sublist:
  assumes "e \<in> set (descendants n)"
  shows "sublist (e # descendants e) (descendants n)"
proof (cases n)
  case (Element nm attrs kids)
  with assms obtain k where k: "k \<in> set kids" "e \<in> set (tags_of k)"
    by auto
  have "sublist (tags_of e) (tags_of k)"
    using k(2) by (rule tags_of_sublist)
  moreover have "sublist (tags_of k) (concat (map tags_of kids))"
    using k(1) by (rule sublist_concat_member)
  ultimately show ?thesis
    using Element tags_of_elements[OF k(2)] by (auto intro: sublist_order.order.trans)
qed (use assms in simp_all)

lemma strings_sublist: "e \<in> set (tags_of n) \<Longrightarrow> sublist (strings e) (strings n)"
proof (induction n)
  case (Element nm attrs kids)
  show ?case
  proof (cases "e = Element nm attrs kids")
    case True
    then show ?thesis by simp
  next
    case False
    with Element.prems obtain k where k: "k \<in> set kids" "e \<in> set (tags_of k)"
      by auto
    then have "sublist (strings e) (strings k)"
      by (rule Element.IH)
    moreover have "sublist (strings k) (concat (map strings kids))"
      using k(1) by (rule sublist_concat_member)
    ultimately show ?thesis
      by (auto intro: sublist_order.order.trans)
  qed
qed simp_all

lemma filter_mono_sublist:
  assumes "sublist xs ys"
  shows "sublist (filter P xs) (filter P ys)"
proof -
  from assms obtain ps ss where "ys = ps @ xs @ ss"
    by (auto simp: sublist_def)
  then have "filter P ys = filter P ps @ filter P xs @ filter P ss"
    by simp
  then show ?thesis
    by (simp only: sublist_appendI)
qed

lemma get_text_sublist:
  assumes "inner \<in> set (descendants outer)" and "get_text sep inner \<noteq> []"
  shows "sublist (get_text sep inner) (get_text sep outer)"
proof -
  from assms(1) obtain nm attrs kids where outer: "outer = Element nm attrs kids"
    by (cases outer) auto
  with assms(1) have "inner \<in> set (tags_of outer)" by simp
  then have "sublist (strings inner) (strings outer)"
    by (rule strings_sublist)
  then have "sublist (stripped_strings inner) (stripped_strings outer)"
    unfolding stripped_strings_def by (intro filter_mono_sublist map_mono_sublist)
  moreover have "stripped_strings inner \<noteq> []"
    using assms(2) by (auto simp: get_text_def)
  ultimately show ?thesis
    unfolding get_text_def by (rule py_join_sublist)
qed


(* new *)

lemma trimmed_py_strip: "py_strip s \<noteq> [] \<Longrightarrow> trimmed (py_strip s)"
proof -
  assume ne: "py_strip s \<noteq> []"
  let ?u = "dropWhile py_isspace s"
  let ?v = "dropWhile py_isspace (rev ?u)"
  have v: "?v \<noteq> []" using ne by (simp add: py_strip_def)
  then have u: "?u \<noteq> []" by (metis dropWhile.simps(1) rev.simps(1))
  have "\<not> py_isspace (hd ?v)" using v by (rule hd_dropWhile)
  then have l: "\<not> py_isspace (last (rev ?v))" using v by (simp add: last_rev)
  have "suffix ?v (rev ?u)" by (rule suffix_dropWhile)
  then obtain w where "rev ?u = w @ ?v" by (auto simp: suffix_def)
  with v have "last (rev ?u) = last ?v" by (metis last_appendR)
  then have "last ?v = hd ?u" using u by (simp add: last_rev)
  moreover have "\<not> py_isspace (hd ?u)" using u by (rule hd_dropWhile)
  ultimately have "\<not> py_isspace (hd (rev ?v))" using v by (simp add: hd_rev)
  with l v show ?thesis by (simp add: trimmed_def py_strip_def)
qed

lemma py_strip_trimmed: "trimmed s \<Longrightarrow> py_strip s = s"
proof -
  assume t: "trimmed s"
  then have "dropWhile py_isspace s = s"
    by (cases s) (auto simp: trimmed_def)
  moreover have "dropWhile py_isspace (rev s) = rev s"
    using t by (cases "rev s") (auto simp: trimmed_def last_rev hd_rev dest: arg_cong[of _ _ hd])
  ultimately show ?thesis by (simp add: py_strip_def)
qed

lemma trimmed_py_join:
  "xs \<noteq> [] \<Longrightarrow> \<forall>x\<in>set xs. trimmed x \<Longrightarrow> trimmed (py_join sep xs)"
proof (induction sep xs rule: py_join.induct)
  case (3 sep x y ys)
  then have "trimmed (py_join sep (y # ys))" by simp
  moreover have "trimmed x" using 3 by simp
  ultimately show ?case by (auto simp: trimmed_def)
qed simp_all

lemma trimmed_get_text: "get_text sep e \<noteq> [] \<Longrightarrow> trimmed (get_text sep e)"
proof -
  assume ne: "get_text sep e \<noteq> []"
  then have "stripped_strings e \<noteq> []" by (auto simp: get_text_def)
  moreover have "\<forall>x\<in>set (stripped_strings e). trimmed x"
    by (auto simp: stripped_strings_def intro: trimmed_py_strip)
  ultimately show ?thesis
    unfolding get_text_def by (rule trimmed_py_join)
qed

lemma content_lines_trimmed: "\<forall>t\<in>set (content_lines els). trimmed t"
  by (auto simp: content_lines_def intro: trimmed_get_text)

lemma content_lines_simps:
  "content_lines [] = []"
  "content_lines (e # els) = (if get_text '' '' e \<noteq> [] then [get_text '' '' e] else []) @ content_lines els"
  "content_lines (xs @ ys) = content_lines xs @ content_lines ys"
  by (simp_all add: content_lines_def)

lemma accumulators_no_heading:
  "\<forall>e\<in>set seg. \<not> is_heading e \<Longrightarrow>
     accumulators h l ls (seg @ ys) = accumulators h l (ls @ content_lines seg) ys"
proof (induction seg arbitrary: ls)
  case Nil
  then show ?case by (simp add: content_lines_simps)
next
  case (Cons e seg)
  then have "\<not> is_heading e" by simp
  then have "accumulators h l ls ((e # seg) @ ys)
      = accumulators h l (if get_text '' '' e \<noteq> [] then ls @ [get_text '' '' e] else ls) (seg @ ys)"
    using accumulators_content[of e h l ls "seg @ ys"] by simp
  also have "\<dots> = accumulators h l
        ((if get_text '' '' e \<noteq> [] then ls @ [get_text '' '' e] else ls) @ content_lines seg) ys"
    using Cons.prems by (intro Cons.IH) simp
  finally show ?case by (simp add: content_lines_simps)
qed

lemma accumulators_hd:
  "\<exists>q more. accumulators h l ls els = (h, l, ls @ q) # more \<and> (\<forall>t\<in>set q. trimmed t)"
  by (subst accumulators.simps) (auto intro: content_lines_trimmed[rule_format] dest: set_takeWhileD simp: content_lines_def intro!: trimmed_get_text)

lemma accumulators_segment:
  assumes "\<forall>e\<in>set seg. \<not> is_heading e" and "\<forall>t\<in>set ls. trimmed t"
  shows "\<exists>h' l' p q. (h', l', p @ content_lines seg @ q) \<in> set (accumulators h l ls (xs @ seg @ ys))
           \<and> (\<forall>t\<in>set p. trimmed t) \<and> (\<forall>t\<in>set q. trimmed t)"
  using assms(2)
proof (induction xs arbitrary: h l ls)
  case Nil
  obtain q more where "accumulators h l (ls @ content_lines seg) ys = (h, l, (ls @ content_lines seg) @ q) # more"
      and "\<forall>t\<in>set q. trimmed t"
    using accumulators_hd by blast
  then have "(h, l, ls @ content_lines seg @ q) \<in> set (accumulators h l ls ([] @ seg @ ys))"
    using accumulators_no_heading[OF assms(1)] by simp
  with Nil \<open>\<forall>t\<in>set q. trimmed t\<close> show ?case by blast
next
  case (Cons x xs)
  show ?case
  proof (cases "is_heading x")
    case True
    have "\<exists>h' l' p q. (h', l', p @ content_lines seg @ q)
             \<in> set (accumulators (get_text '' '' x) (heading_rank x) [] (xs @ seg @ ys))
           \<and> (\<forall>t\<in>set p. trimmed t) \<and> (\<forall>t\<in>set q. trimmed t)"
      by (rule Cons.IH) simp
    then obtain h' l' p q where
      mem: "(h', l', p @ content_lines seg @ q) \<in> set (accumulators (get_text '' '' x) (heading_rank x) [] (xs @ seg @ ys))"
      and tr: "\<forall>t\<in>set p. trimmed t" "\<forall>t\<in>set q. trimmed t"
      by blast
    have eq: "accumulators h l ls ((x # xs) @ seg @ ys)
        = (h, l, ls) # accumulators (get_text '' '' x) (heading_rank x) [] (xs @ seg @ ys)"
      using accumulators_heading[OF True, of h l ls "xs @ seg @ ys"] by simp
    have "(h', l', p @ content_lines seg @ q) \<in> set (accumulators h l ls ((x # xs) @ seg @ ys))"
      unfolding eq using mem by simp
    with tr show ?thesis by blast
  next
    case False
    let ?ls = "if get_text '' '' x \<noteq> [] then ls @ [get_text '' '' x] else ls"
    have "\<forall>t\<in>set ?ls. trimmed t"
      using Cons.prems by (auto intro: trimmed_get_text)
    then have "\<exists>h' l' p q. (h', l', p @ content_lines seg @ q)
             \<in> set (accumulators h l ?ls (xs @ seg @ ys))
           \<and> (\<forall>t\<in>set p. trimmed t) \<and> (\<forall>t\<in>set q. trimmed t)"
      by (rule Cons.IH)
    then obtain h' l' p q where
      mem: "(h', l', p @ content_lines seg @ q) \<in> set (accumulators h l ?ls (xs @ seg @ ys))"
      and tr: "\<forall>t\<in>set p. trimmed t" "\<forall>t\<in>set q. trimmed t"
      by blast
    have eq: "accumulators h l ls ((x # xs) @ seg @ ys) = accumulators h l ?ls (xs @ seg @ ys)"
      using accumulators_content[OF False, of h l ls "xs @ seg @ ys"] by simp
    have "(h', l', p @ content_lines seg @ q) \<in> set (accumulators h l ls ((x # xs) @ seg @ ys))"
      unfolding eq using mem by simp
    with tr show ?thesis by blast
  qed
qed


lemma content_not_heading: "tag_name e \<in> set CONTENT_TAGS \<Longrightarrow> \<not> is_heading e"
  by (auto simp: is_heading_def CONTENT_TAGS_def HEADING_TAGS_def)

lemma flushed_member:
  assumes "(h, l, ls) \<in> set accs" and "ls \<noteq> []" and "\<forall>t\<in>set ls. trimmed t"
  shows "\<lparr>heading = h, level = l, content = py_join ''\<newline>'' ls\<rparr> \<in> set (flushed accs)"
proof -
  have t: "trimmed (py_join ''\<newline>'' ls)"
    using assms(2,3) by (rule trimmed_py_join)
  then have "py_strip (py_join ''\<newline>'' ls) = py_join ''\<newline>'' ls"
    by (rule py_strip_trimmed)
  moreover have "py_join ''\<newline>'' ls \<noteq> []"
    using t by (simp add: trimmed_def)
  ultimately show ?thesis
    using assms(1) by (force simp: flushed_def)
qed

lemma occurrences_two_lines:
  assumes "sublist t u" and "t \<noteq> []"
  shows "2 \<le> occurrences t (py_join sep (ls1 @ u # ls2 @ t # ls3))"
proof -
  from assms(1) obtain v w where u: "u = v @ t @ w"
    by (auto simp: sublist_def)
  have "py_join sep (ls1 @ u # ls2 @ t # ls3)
      = py_join sep (ls1 @ [u]) @ sep @ py_join sep (ls2 @ t # ls3)"
    using py_join_append[of "ls1 @ [u]" "ls2 @ t # ls3" sep] by simp
  moreover obtain a c where "py_join sep (ls1 @ [u]) = a @ u @ c"
    using py_join_middle by blast
  moreover obtain b d where "py_join sep (ls2 @ t # ls3) = b @ t @ d"
    using py_join_middle by blast
  ultimately have "py_join sep (ls1 @ u # ls2 @ t # ls3)
      = (a @ v) @ t @ (w @ c @ sep @ b) @ t @ d"
    by (simp add: u)
  then show ?thesis
    using occurrences_twice[OF assms(2)] by metis
qed

text \<open>
  Claim C10, amended. When the chosen container holds a block-content element \<open>outer\<close>
  and, below it, a block-content element \<open>inner\<close> whose visible text is not empty, with
  no heading element between the two in document order, then one section of the result
  has a line for \<open>outer\<close> (whose text includes the text of \<open>inner\<close>) and a later, separate
  line for \<open>inner\<close>: the text of \<open>inner\<close> occurs at least twice in that section's content.
\<close>

theorem nested_content_twice:
  assumes "find_container soup = Some container"
    and "outer \<in> set (descendants container)"
    and "tag_name outer \<in> set CONTENT_TAGS"
    and "descendants outer = before @ inner # after"
    and "\<forall>e\<in>set before. tag_name e \<notin> set HEADING_TAGS"
    and "tag_name inner \<in> set CONTENT_TAGS"
    and "get_text '' '' inner \<noteq> []"
  shows "\<exists>sections sec ls1 ls2 ls3.
           extract_html nm stem (Inr soup) = Inr sections \<and> sec \<in> set sections
         \<and> content sec = py_join ''\<newline>'' (ls1 @ get_text '' '' outer # ls2 @ get_text '' '' inner # ls3)
         \<and> sublist (get_text '' '' inner) (get_text '' '' outer)
         \<and> 2 \<le> occurrences (get_text '' '' inner) (content sec)"
proof -
  let ?P = "\<lambda>e. tag_name e \<in> set (HEADING_TAGS @ CONTENT_TAGS)"
  let ?to = "get_text '' '' outer" and ?ti = "get_text '' '' inner"
  let ?seg = "outer # filter ?P before @ [inner]"
  have sub: "sublist ?ti ?to"
    using assms(4,7) by (intro get_text_sublist) simp_all
  with assms(7) have to: "?to \<noteq> []" by auto
  have "sublist (outer # descendants outer) (descendants container)"
    using assms(2) by (rule descendants_sublist)
  then obtain pre post where "descendants container = pre @ (outer # before @ inner # after) @ post"
    using assms(4) by (auto simp: sublist_def)
  then have els: "find_all (HEADING_TAGS @ CONTENT_TAGS) container
      = filter ?P pre @ ?seg @ (filter ?P after @ filter ?P post)"
    using assms(3,6) by (simp add: find_all_def)
  have "\<not> is_heading outer" "\<not> is_heading inner"
    using assms(3,6) by (simp_all add: content_not_heading)
  then have "\<forall>e\<in>set ?seg. \<not> is_heading e"
    using assms(5) by (auto simp: is_heading_def)
  then obtain h' l' p q where
    mem: "(h', l', p @ content_lines ?seg @ q)
            \<in> set (accumulators stem 1 [] (filter ?P pre @ ?seg @ (filter ?P after @ filter ?P post)))"
    and tr: "\<forall>t\<in>set p. trimmed t" "\<forall>t\<in>set q. trimmed t"
    using accumulators_segment[of ?seg "[]"] by (metis empty_iff list.set(1))
  let ?mid = "content_lines (filter ?P before)"
  have seg: "content_lines ?seg = ?to # ?mid @ [?ti]"
    using to assms(7) by (simp add: content_lines_simps)
  let ?ls = "p @ ?to # ?mid @ ?ti # q"
  let ?sec = "\<lparr>heading = h', level = l', content = py_join ''\<newline>'' ?ls\<rparr>"
  have "\<forall>t\<in>set ?ls. trimmed t"
    using tr to assms(7) content_lines_trimmed[of "filter ?P before"] by (auto intro: trimmed_get_text)
  moreover have "(h', l', ?ls) \<in> set (accumulators stem 1 [] (find_all (HEADING_TAGS @ CONTENT_TAGS) container))"
  proof -
    have "p @ content_lines ?seg @ q = ?ls"
      unfolding seg by simp
    with mem show ?thesis
      unfolding els by simp
  qed
  ultimately have in_flushed: "?sec \<in> set (flushed (accumulators stem 1 []
                      (find_all (HEADING_TAGS @ CONTENT_TAGS) container)))"
    by (intro flushed_member) simp_all
  then have "flushed (accumulators stem 1 [] (find_all (HEADING_TAGS @ CONTENT_TAGS) container)) \<noteq> []"
    by auto
  then have "extract_html nm stem (Inr soup)
      = Inr (flushed (accumulators stem 1 [] (find_all (HEADING_TAGS @ CONTENT_TAGS) container)))"
    using assms(1) by (simp add: extract_html_def walk_flushed Let_def)
  moreover have "2 \<le> occurrences ?ti (content ?sec)"
    using occurrences_two_lines[OF sub assms(7), of "''\<newline>''" p ?mid q] by simp
  ultimately show ?thesis
    using in_flushed sub by (intro exI[of _ "flushed _"] exI[of _ ?sec] exI[of _ p] exI[of _ ?mid] exI[of _ q]) simp
qed


lemmas html_eval = extract_html_def find_container_def soup_find_def find_all_def
        HEADING_TAGS_def CONTENT_TAGS_def get_text_def stripped_strings_def py_strip_def
        py_isspace_def flush_def heading_rank_def Let_def

text \<open>
  Claim C10, as stated, at concrete inputs. In \<open><main><li><h2>T</h2><p>x</p></li></main>\<close>
  the heading between the list item and its paragraph closes the section: the line of
  the list item and the line of the paragraph end in two sections, and the text "x"
  occurs once in each. In \<open><main><li>a<p></p></li></main>\<close> the paragraph has no text and
  gets no line.
\<close>

theorem nested_content_split_by_heading:
  "extract_html ''page.html'' ''page'' (Inr [heading_between_main])
     = Inr [\<lparr>heading = ''page'', level = 1, content = ''T x''\<rparr>,
            \<lparr>heading = ''T'', level = 2, content = ''x''\<rparr>]
   \<and> occurrences ''x'' ''T x'' = 1 \<and> occurrences ''x'' ''x'' = 1
   \<and> extract_html ''page.html'' ''page'' (Inr [empty_inner_main])
     = Inr [\<lparr>heading = ''page'', level = 1, content = ''a''\<rparr>]"
  by (simp add: heading_between_main_def empty_inner_main_def html_eval occurrences_def upt_rec)

theorem nested_content_twice_witness:
  "find_container [list_item_main] = Some list_item_main
   \<and> Element ''li'' [] [Text ''Item '', Element ''p'' [] [Text ''detail'']] \<in> set (descendants list_item_main)
   \<and> ''li'' \<in> set CONTENT_TAGS \<and> ''p'' \<in> set CONTENT_TAGS
   \<and> descendants (Element ''li'' [] [Text ''Item '', Element ''p'' [] [Text ''detail'']])
       = [] @ Element ''p'' [] [Text ''detail''] # []
   \<and> get_text '' '' (Element ''p'' [] [Text ''detail'']) = ''detail''
   \<and> (\<exists>sections sec ls1 ls2 ls3.
           extract_html ''page.html'' ''page'' (Inr [list_item_main]) = Inr sections \<and> sec \<in> set sections
         \<and> content sec = py_join ''\<newline>'' (ls1 @ ''Item detail'' # ls2 @ ''detail'' # ls3)
         \<and> sublist ''detail'' ''Item detail''
         \<and> 2 \<le> occurrences ''detail'' (content sec))
   \<and> extract_html ''page.html'' ''page'' (Inr [list_item_main])
       = Inr [\<lparr>heading = ''page'', level = 1, content = ''Item detail\<newline>detail''\<rparr>]"
proof -
  let ?li = "Element ''li'' [] [Text ''Item '', Element ''p'' [] [Text ''detail'']]"
  let ?p = "Element ''p'' [] [Text ''detail'']"
  have t: "get_text '' '' ?p = ''detail''" "get_text '' '' ?li = ''Item detail''"
    by (simp_all add: html_eval)
  have h: "find_container [list_item_main] = Some list_item_main"
    "?li \<in> set (descendants list_item_main)"
    "tag_name ?li \<in> set CONTENT_TAGS"
    "descendants ?li = [] @ ?p # []"
    "\<forall>e\<in>set []. tag_name e \<notin> set HEADING_TAGS"
    "tag_name ?p \<in> set CONTENT_TAGS"
    "get_text '' '' ?p \<noteq> []"
    by (simp_all add: list_item_main_def html_eval)
  have e: "extract_html ''page.html'' ''page'' (Inr [list_item_main])
       = Inr [\<lparr>heading = ''page'', level = 1, content = ''Item detail\<newline>detail''\<rparr>]"
    by (simp add: list_item_main_def html_eval)
  show ?thesis
    using nested_content_twice[OF h, of "''page.html''" "''page''"] h e
    by (simp add: t)
qed

section \<open>Properties of OSCAL catalog extraction\<close>

lemma py_title_labels:
  "py_title ''statement'' = ''Statement''" "py_title ''guidance'' = ''Guidance''"
  by (simp_all add: py_title_def ascii_lowercase_def ascii_uppercase_def upper_char_def lower_char_def)

lemma part_json_obj:
  assumes "part_json p j"
  obtains nm prose subs kvs where "p = Part nm prose subs" "j = JObj kvs"
    "map_of kvs ''name'' = map_option JStr nm" "map_of kvs ''prose'' = map_option JStr prose"
    "map_of kvs ''parts'' = None \<and> subs = [] \<or> (\<exists>xs. map_of kvs ''parts'' = Some (JArr xs) \<and> list_all2 part_json subs xs)"
proof (cases p)
  case (Part nm prose subs)
  with assms obtain kvs where j: "j = JObj kvs"
    by (cases j) auto
  show ?thesis
  proof (rule that[OF Part j])
    show "map_of kvs ''name'' = map_option JStr nm" "map_of kvs ''prose'' = map_option JStr prose"
      using assms Part j by simp_all
    show "map_of kvs ''parts'' = None \<and> subs = [] \<or> (\<exists>xs. map_of kvs ''parts'' = Some (JArr xs) \<and> list_all2 part_json subs xs)"
      using assms Part j by (auto split: option.splits json.splits)
  qed
qed

lemma collect_subparts_spec:
  assumes "list_all2 part_json subs xs"
    and "\<And>p j. p \<in> set subs \<Longrightarrow> part_json p j \<Longrightarrow> collect_prose j = Inr (prose_of p)"
  shows "collect_subparts xs lines = Inr (lines @ filter (\<lambda>s. s \<noteq> []) (map prose_of subs))"
  using assms
proof (induction subs xs arbitrary: lines rule: list_all2_induct)
  case Nil
  then show ?case by simp
next
  case (Cons p subs x xs)
  have "collect_prose x = Inr (prose_of p)"
    using Cons.hyps(1) Cons.prems by simp
  moreover have "collect_subparts xs ls = Inr (ls @ filter (\<lambda>s. s \<noteq> []) (map prose_of subs))" for ls
    using Cons.prems by (intro Cons.IH) simp_all
  ultimately show ?case by simp
qed

lemma collect_prose_spec: "part_json p j \<Longrightarrow> collect_prose j = Inr (prose_of p)"
proof (induction p arbitrary: j)
  case (Part nm prose subs)
  from Part.prems obtain kvs where j: "j = JObj kvs"
    and pr: "map_of kvs ''prose'' = map_option JStr prose"
    and ps: "map_of kvs ''parts'' = None \<and> subs = [] \<or> (\<exists>xs. map_of kvs ''parts'' = Some (JArr xs) \<and> list_all2 part_json subs xs)"
    by (auto elim!: part_json_obj)
  let ?s = "case prose of None \<Rightarrow> [] | Some p \<Rightarrow> p"
  let ?lines = "if py_strip ?s \<noteq> [] then [py_strip ?s] else []"
  have a: "bind_exn (py_get j ''prose'' JNull) (\<lambda>p. py_str (if py_truthy p then p else JStr [])) = Inr ?s"
    using pr by (cases prose) (simp_all add: j)
  obtain xs where xs: "bind_exn (py_get j ''parts'' (JArr [])) py_iter = Inr xs"
      and rel: "list_all2 part_json subs xs"
    using ps by (auto simp: j)
  have loop: "collect_subparts xs ?lines = Inr (?lines @ filter (\<lambda>s. s \<noteq> []) (map prose_of subs))"
    using rel Part.IH by (rule collect_subparts_spec)
  have "collect_prose j =
     bind_exn (bind_exn (py_get j ''prose'' JNull) (\<lambda>p. py_str (if py_truthy p then p else JStr []))) (\<lambda>s.
     bind_exn (bind_exn (py_get j ''parts'' (JArr [])) py_iter) (\<lambda>subparts.
     bind_exn (collect_subparts subparts (if py_strip s \<noteq> [] then [py_strip s] else [])) (\<lambda>lines.
       Inr (py_join ''\<newline>'' lines))))"
    by (subst collect_prose.simps) (simp add: bind_exn_def Let_def split: sum.splits)
  also have "\<dots> = Inr (py_join ''\<newline>'' (?lines @ filter (\<lambda>s. s \<noteq> []) (map prose_of subs)))"
    by (simp add: a xs loop)
  finally show ?case by simp
qed

lemma labelled_blocks_Cons:
  "labelled_blocks (p # parts)
      = (case part_label p of None \<Rightarrow> []
         | Some label \<Rightarrow> if prose_of p \<noteq> [] then [''**'' @ label @ ''**'' @ ''\<newline>'' @ prose_of p] else [])
        @ labelled_blocks parts"
  by (simp add: labelled_blocks_def)

lemma collect_text_parts_spec:
  "list_all2 part_json parts xs \<Longrightarrow> collect_text_parts xs acc = Inr (acc @ labelled_blocks parts)"
proof (induction parts xs arbitrary: acc rule: list_all2_induct)
  case Nil
  then show ?case by (simp add: labelled_blocks_def)
next
  case (Cons p parts x xs)
  from Cons.hyps(1) obtain nm prose subs kvs where p: "p = Part nm prose subs" and x: "x = JObj kvs"
    and nm: "map_of kvs ''name'' = map_option JStr nm"
    by (auto elim!: part_json_obj)
  have prose: "collect_prose x = Inr (prose_of p)"
    using Cons.hyps(1) by (rule collect_prose_spec)
  have name: "py_get x ''name'' (JStr []) = Inr (case nm of None \<Rightarrow> JStr [] | Some n \<Rightarrow> JStr n)"
    using nm by (cases nm) (simp_all add: x)
  consider (s) "nm = Some ''statement''" | (g) "nm = Some ''guidance''"
    | (other) "nm \<noteq> Some ''statement''" "nm \<noteq> Some ''guidance''"
    by blast
  then show ?case
  proof cases
    case s
    then show ?thesis
      using prose by (simp add: name Cons.IH labelled_blocks_Cons p py_title_labels del: prose_of.simps)
  next
    case g
    then show ?thesis
      using prose by (simp add: name Cons.IH labelled_blocks_Cons p py_title_labels del: prose_of.simps)
  next
    case other
    then have "(case nm of None \<Rightarrow> JStr [] | Some n \<Rightarrow> JStr n) \<noteq> JStr ''statement''"
      "(case nm of None \<Rightarrow> JStr [] | Some n \<Rightarrow> JStr n) \<noteq> JStr ''guidance''"
      by (cases nm; simp)+
    then show ?thesis
      using other by (simp add: name Cons.IH labelled_blocks_Cons p)
  qed
qed


lemma extract_enhancements_spec:
  assumes "list_all2 control_json subs xs"
    and "\<And>c j l. c \<in> set subs \<Longrightarrow> control_json c j \<Longrightarrow>
           extract_control_sections j l = Inr (control_sections c l)"
  shows "extract_enhancements xs lvl acc = Inr (acc @ concat (map (\<lambda>c. control_sections c lvl) subs))"
  using assms
proof (induction subs xs arbitrary: acc rule: list_all2_induct)
  case Nil
  then show ?case by simp
next
  case (Cons c subs x xs)
  have "extract_control_sections x lvl = Inr (control_sections c lvl)"
    using Cons.hyps(1) Cons.prems by simp
  moreover have "extract_enhancements xs lvl a = Inr (a @ concat (map (\<lambda>c. control_sections c lvl) subs))" for a
    using Cons.prems by (intro Cons.IH) simp_all
  ultimately show ?case by simp
qed

lemma extract_control_sections_spec:
  "control_json c j \<Longrightarrow> extract_control_sections j lvl = Inr (control_sections c lvl)"
proof (induction c arbitrary: j lvl)
  case (Control cid title parts subs)
  from Control.prems obtain kvs where j: "j = JObj kvs"
    by (cases j) auto
  with Control.prems have i: "map_of kvs ''id'' = map_option JStr cid"
    and t: "map_of kvs ''title'' = map_option JStr title"
    and ps: "map_of kvs ''parts'' = None \<and> parts = [] \<or> (\<exists>xs. map_of kvs ''parts'' = Some (JArr xs) \<and> list_all2 part_json parts xs)"
    and cs: "map_of kvs ''controls'' = None \<and> subs = [] \<or> (\<exists>xs. map_of kvs ''controls'' = Some (JArr xs) \<and> list_all2 control_json subs xs)"
    by (auto split: option.splits json.splits)
  let ?i = "py_upper (case cid of None \<Rightarrow> [] | Some i \<Rightarrow> i)"
  let ?t = "case title of None \<Rightarrow> [] | Some t \<Rightarrow> t"
  let ?h = "if ?i \<noteq> [] then ?i @ '': '' @ ?t else ?t"
  let ?c = "py_join (''\<newline>'' @ ''\<newline>'') (labelled_blocks parts)"
  let ?secs = "if ?h \<noteq> [] \<and> ?c \<noteq> [] then [\<lparr>heading = ?h, level = lvl, content = ?c\<rparr>] else []"
  have a: "bind_exn (py_get j ''id'' (JStr [])) py_str = Inr (case cid of None \<Rightarrow> [] | Some i \<Rightarrow> i)"
    using i by (cases cid) (simp_all add: j)
  have b: "py_get j ''title'' (JStr []) = Inr (JStr ?t)"
    using t by (cases title) (simp_all add: j)
  obtain xs where xs: "bind_exn (py_get j ''parts'' (JArr [])) py_iter = Inr xs"
      and rel: "list_all2 part_json parts xs"
    using ps by (auto simp: j)
  have tp: "collect_text_parts xs [] = Inr (labelled_blocks parts)"
    using collect_text_parts_spec[OF rel, of "[]"] by simp
  obtain ys where ys: "bind_exn (py_get j ''controls'' (JArr [])) py_iter = Inr ys"
      and rel': "list_all2 control_json subs ys"
    using cs by (auto simp: j)
  have loop: "extract_enhancements ys (lvl + 1) ?secs
      = Inr (?secs @ concat (map (\<lambda>c. control_sections c (lvl + 1)) subs))"
    using rel' Control.IH by (rule extract_enhancements_spec)
  have "extract_control_sections j lvl =
     bind_exn (bind_exn (py_get j ''id'' (JStr [])) py_str) (\<lambda>i.
     bind_exn (py_get j ''title'' (JStr [])) (\<lambda>title.
     bind_exn (format_heading (py_upper i) title) (\<lambda>h.
     bind_exn (bind_exn (py_get j ''parts'' (JArr [])) py_iter) (\<lambda>parts.
     bind_exn (collect_text_parts parts []) (\<lambda>text_parts.
     bind_exn (bind_exn (py_get j ''controls'' (JArr [])) py_iter) (\<lambda>enhancements.
       extract_enhancements enhancements (lvl + 1)
         (if h \<noteq> [] \<and> py_join (''\<newline>'' @ ''\<newline>'') text_parts \<noteq> []
          then [\<lparr>heading = h, level = lvl, content = py_join (''\<newline>'' @ ''\<newline>'') text_parts\<rparr>]
          else [])))))))"
    by (subst extract_control_sections.simps) (simp add: bind_exn_def Let_def split: sum.splits)
  also have "\<dots> = Inr (?secs @ concat (map (\<lambda>c. control_sections c (lvl + 1)) subs))"
    using loop by (simp add: a b xs tp ys)
  finally show ?case by (simp add: Let_def)
qed

lemma ac_1_sections:
  "extract_control_sections ac_1 2
     = Inr [\<lparr>heading = ''AC-1: Policy and Procedures'', level = 2,
             content = ''**Statement**\<newline>Do X.\<newline>\<newline>**Guidance**\<newline>Additional guidance.''\<rparr>]"
  by code_simp

text \<open>
  Claim C5. For a JSON value that is an OSCAL control, \<open>_extract_control_sections\<close>
  returns the control's sections: the heading is the uppercased id, ": " and the title
  (the title alone without an id); the content is made of the blocks \<open>**Statement**\<close> and
  \<open>**Guidance**\<close>, each followed by the prose collected depth-first from the part and its
  sub-parts, joined by a blank line; the Section, at the caller's level, is emitted only
  when heading and content are both non-empty, and the sections of the enhancements
  follow at level + 1. For id "ac-1", title "Policy and Procedures", statement prose
  "Do X." and guidance prose "Additional guidance." the result at level 2 is the one
  Section of the claim.
\<close>

theorem control_sections_extracted:
  "(control_json c j \<longrightarrow> extract_control_sections j lvl = Inr (control_sections c lvl))
   \<and> extract_control_sections
        (JObj [(''id'', JStr ''ac-1''), (''title'', JStr ''Policy and Procedures''),
           (''parts'', JArr [JObj [(''name'', JStr ''statement''), (''prose'', JStr ''Do X.'')],
                             JObj [(''name'', JStr ''guidance''), (''prose'', JStr ''Additional guidance.'')]])]) 2
       = Inr [\<lparr>heading = ''AC-1: Policy and Procedures'', level = 2,
               content = ''**Statement**\<newline>Do X.\<newline>\<newline>**Guidance**\<newline>Additional guidance.''\<rparr>]"
  using extract_control_sections_spec[of c j lvl] ac_1_sections by (simp add: ac_1_def)

theorem control_sections_extracted_witness:
  "control_json ac_1_control ac_1
   \<and> extract_control_sections ac_1 2 = Inr (control_sections ac_1_control 2)
   \<and> control_sections ac_1_control 2
       = [\<lparr>heading = ''AC-1: Policy and Procedures'', level = 2,
            content = ''**Statement**\<newline>Do X.\<newline>\<newline>**Guidance**\<newline>Additional guidance.''\<rparr>]"
proof -
  have h: "control_json ac_1_control ac_1"
    by (simp add: ac_1_control_def ac_1_def)
  have "extract_control_sections ac_1 2 = Inr (control_sections ac_1_control 2)"
    using control_sections_extracted[of ac_1_control ac_1 2] h by blast
  with h ac_1_sections show ?thesis by simp
qed

section \<open>Properties of OSCAL profile extraction\<close>

lemma include_controls_ids_spec:
  "list_all2 with_ids_json ics xs \<Longrightarrow>
   include_controls_ids xs acc = Inr (acc @ map JStr (concat ics))"
proof (induction ics xs arbitrary: acc rule: list_all2_induct)
  case Nil
  then show ?case by simp
next
  case (Cons ids ics x xs)
  from Cons.hyps(1) obtain kvs where x: "x = JObj kvs"
    by (cases x) auto
  with Cons.hyps(1) have "bind_exn (py_get x ''with-ids'' (JArr [])) py_iter = Inr (map JStr ids)"
    by (auto split: option.splits)
  moreover have "include_controls_ids (x # xs) acc
      = bind_exn (bind_exn (py_get x ''with-ids'' (JArr [])) py_iter) (\<lambda>ids.
          include_controls_ids xs (acc @ ids))"
    by (simp add: bind_exn_def split: sum.splits)
  ultimately show ?case by (simp add: Cons.IH)
qed

lemma imports_ids_spec:
  "list_all2 import_json imps xs \<Longrightarrow>
   imports_ids xs acc = Inr (acc @ map JStr (concat (concat imps)))"
proof (induction imps xs arbitrary: acc rule: list_all2_induct)
  case Nil
  then show ?case by simp
next
  case (Cons ics imps x xs)
  from Cons.hyps(1) obtain kvs where x: "x = JObj kvs"
    by (cases x) auto
  with Cons.hyps(1) obtain ys where ys: "bind_exn (py_get x ''include-controls'' (JArr [])) py_iter = Inr ys"
      and rel: "list_all2 with_ids_json ics ys"
    by (auto split: option.splits json.splits)
  have "imports_ids (x # xs) acc
      = bind_exn (bind_exn (py_get x ''include-controls'' (JArr [])) py_iter) (\<lambda>ics.
        bind_exn (include_controls_ids ics acc) (\<lambda>all_ids. imports_ids xs all_ids))"
    by (simp add: bind_exn_def split: sum.splits)
  then show ?case
    by (simp add: ys include_controls_ids_spec[OF rel] Cons.IH)
qed

lemma py_sorted_strs: "py_sorted (map JStr ids) = Inr (map JStr (sort ids))"
proof -
  have "list_all is_str (map JStr ids)" by (induction ids) simp_all
  moreover have "map the_str (map JStr ids) = ids" by (induction ids) simp_all
  ultimately show ?thesis by (simp add: py_sorted_def)
qed

lemma group_families_fold:
  "group_families (map JStr ids) fams
     = Inr (fold (\<lambda>i f. setdefault_append f (family_of i) i) ids fams)"
  by (induction ids arbitrary: fams) simp_all

lemma map_of_setdefault_append:
  "map_of (setdefault_append fams k i)
     = (map_of fams)(k \<mapsto> (case map_of fams k of None \<Rightarrow> [i] | Some v \<Rightarrow> v @ [i]))"
  by (induction fams k i rule: setdefault_append.induct) (auto simp: fun_eq_iff)

lemma keys_setdefault_append:
  "map fst (setdefault_append fams k i)
     = (if k \<in> set (map fst fams) then map fst fams else map fst fams @ [k])"
  by (induction fams k i rule: setdefault_append.induct) auto

lemma families_of_step:
  assumes "families_of fams ids"
  shows "families_of (setdefault_append fams (family_of i) i) (ids @ [i])"
proof -
  let ?k = "family_of i"
  from assms have d: "distinct (map fst fams)" and s: "set (map fst fams) = family_of ` set ids"
    and "\<forall>k\<in>family_of ` set ids. map_of fams k = Some (filter (\<lambda>i. family_of i = k) ids)"
    unfolding families_of_def by blast+
  then have m: "map_of fams k = Some (filter (\<lambda>i. family_of i = k) ids)"
    if "k \<in> family_of ` set ids" for k
    using that by blast
  have none: "map_of fams ?k = None" if "?k \<notin> family_of ` set ids"
    using that s by (metis map_of_eq_None_iff set_map)
  have no_ids: "filter (\<lambda>j. family_of j = ?k) ids = []" if "?k \<notin> family_of ` set ids"
  proof -
    from that have "\<forall>j\<in>set ids. family_of j \<noteq> ?k" by (metis imageI)
    then show ?thesis by (simp add: filter_empty_conv)
  qed
  show ?thesis
    unfolding families_of_def
  proof (intro conjI ballI)
    show "distinct (map fst (setdefault_append fams ?k i))"
      using d by (simp add: keys_setdefault_append)
    show "set (map fst (setdefault_append fams ?k i)) = family_of ` set (ids @ [i])"
      using s by (auto simp: keys_setdefault_append)
    fix k assume k: "k \<in> family_of ` set (ids @ [i])"
    show "map_of (setdefault_append fams ?k i) k = Some (filter (\<lambda>i. family_of i = k) (ids @ [i]))"
    proof (cases "k = ?k")
      case True
      show ?thesis
      proof (cases "?k \<in> family_of ` set ids")
        case True
        with \<open>k = ?k\<close> show ?thesis by (simp add: map_of_setdefault_append m)
      next
        case False
        with \<open>k = ?k\<close> show ?thesis by (simp add: map_of_setdefault_append none no_ids)
      qed
    next
      case False
      with k have "k \<in> family_of ` set ids" by auto
      with False show ?thesis by (simp add: map_of_setdefault_append m)
    qed
  qed
qed

lemma families_of_fold:
  "families_of fams seen \<Longrightarrow>
   families_of (fold (\<lambda>i f. setdefault_append f (family_of i) i) ids fams) (seen @ ids)"
proof (induction ids arbitrary: fams seen)
  case Nil
  then show ?case by simp
next
  case (Cons i ids)
  have "families_of (setdefault_append fams (family_of i) i) (seen @ [i])"
    using Cons.prems by (rule families_of_step)
  then have "families_of (fold (\<lambda>i f. setdefault_append f (family_of i) i) ids
                (setdefault_append fams (family_of i) i)) ((seen @ [i]) @ ids)"
    by (rule Cons.IH)
  then show ?case by simp
qed

lemma distinct_keys_sort_key:
  "distinct (map f (sort_key f xs)) = distinct (map f xs)"
  by (induction xs) (simp_all add: distinct_insort_key)

lemma sorted_items:
  assumes "families_of fams ids"
  shows "sort_key fst fams
       = map (\<lambda>k. (k, filter (\<lambda>i. family_of i = k) ids)) (sort (remdups (map family_of ids)))"
    and "sort (map fst fams) = sort (remdups (map family_of ids))"
proof -
  let ?keys = "sort (remdups (map family_of ids))"
  from assms have d: "distinct (map fst fams)" and s: "set (map fst fams) = family_of ` set ids"
    and "\<forall>k\<in>family_of ` set ids. map_of fams k = Some (filter (\<lambda>i. family_of i = k) ids)"
    unfolding families_of_def by blast+
  then have m: "map_of fams k = Some (filter (\<lambda>i. family_of i = k) ids)"
    if "k \<in> family_of ` set ids" for k
    using that by blast
  have "sorted (map fst (sort_key fst fams))" by simp
  moreover have "distinct (map fst (sort_key fst fams))"
    using d by (simp add: distinct_keys_sort_key)
  moreover have "sorted ?keys" "distinct ?keys" by simp_all
  moreover have "set (map fst (sort_key fst fams)) = set ?keys"
    using s by simp
  ultimately have keys: "map fst (sort_key fst fams) = ?keys"
    by (rule sorted_distinct_set_unique)
  have "p = (fst p, filter (\<lambda>i. family_of i = fst p) ids)" if "p \<in> set (sort_key fst fams)" for p
  proof -
    from that have p: "p \<in> set fams" by simp
    then have "map_of fams (fst p) = Some (snd p)"
      using d map_of_is_SomeI[of fams "fst p" "snd p"] by simp
    moreover have "fst p \<in> family_of ` set ids"
      using p s by force
    ultimately show ?thesis
      using m by (cases p) auto
  qed
  then have "map (\<lambda>p. (fst p, filter (\<lambda>i. family_of i = fst p) ids)) (sort_key fst fams) = sort_key fst fams"
    by (intro map_idI) simp
  then have "sort_key fst fams = map (\<lambda>k. (k, filter (\<lambda>i. family_of i = k) ids)) (map fst (sort_key fst fams))"
    by (simp add: o_def)
  then show "sort_key fst fams = map (\<lambda>k. (k, filter (\<lambda>i. family_of i = k) ids)) ?keys"
    by (simp only: keys)
  have "sorted (sort (map fst fams))" "distinct (sort (map fst fams))"
    using d by simp_all
  moreover have "set (sort (map fst fams)) = set ?keys"
    using s by simp
  ultimately show "sort (map fst fams) = ?keys"
    using \<open>sorted ?keys\<close> \<open>distinct ?keys\<close> by (intro sorted_distinct_set_unique)
qed


lemma sort_remdups_families:
  "sort (remdups (map family_of (sort ids))) = sort (remdups (map family_of ids))"
  by (intro sorted_distinct_set_unique) simp_all

lemma extract_profile_spec:
  assumes "profile_json title imps j"
  shows "extract_profile j = Inr (profile_sections title (concat (concat imps)))"
proof -
  let ?t = "case title of None \<Rightarrow> ''Unknown Profile'' | Some t \<Rightarrow> t"
  let ?ids = "concat (concat imps)"
  from assms obtain kvs where j: "j = JObj kvs"
    by (cases j) auto
  obtain md where md: "py_get j ''metadata'' (JObj []) = Inr md"
      "py_get md ''title'' (JStr ''Unknown Profile'') = Inr (JStr ?t)"
    using assms by (cases title) (auto simp: j split: option.splits json.splits)
  obtain v xs where xs: "py_get j ''imports'' (JArr []) = Inr v" "py_iter v = Inr xs"
      and rel: "list_all2 import_json imps xs"
    using assms by (auto simp: j split: option.splits json.splits)
  have ids: "imports_ids xs [] = Inr (map JStr ?ids)"
    using imports_ids_spec[OF rel, of "[]"] by simp
  show ?thesis
  proof (cases "?ids = []")
    case True
    then show ?thesis
      by (simp add: extract_profile_def md xs ids profile_sections_def)
  next
    case False
    let ?fams = "fold (\<lambda>i f. setdefault_append f (family_of i) i) (sort ?ids) []"
    let ?keys = "sort (remdups (map family_of ?ids))"
    have "families_of [] []" by (simp add: families_of_def)
    then have "families_of ?fams ([] @ sort ?ids)" by (rule families_of_fold)
    then have f: "families_of ?fams (sort ?ids)" by simp
    have items: "sort_key fst ?fams = map (\<lambda>k. (k, filter (\<lambda>i. family_of i = k) (sort ?ids))) ?keys"
      and keys: "sort (map fst ?fams) = ?keys"
      using sorted_items[OF f] by (simp_all only: sort_remdups_families)
    have "extract_profile j
        = Inr (\<lparr>heading = ?t, level = 1,
                 content = ''Total controls: '' @ str_nat (length ?ids) @ ''\<newline>'' @
                           ''Families: '' @ py_join '', '' (sort (map fst ?fams))\<rparr> #
               map (\<lambda>(family, ids).
                      \<lparr>heading = family @ '' Controls'', level = 2, content = py_join '', '' ids\<rparr>)
                   (sort_key fst ?fams))"
      using False by (simp add: extract_profile_def md xs ids py_sorted_strs group_families_fold)
    also have "\<dots> = Inr (profile_sections title ?ids)"
      using False unfolding items keys by (simp add: profile_sections_def Let_def o_def)
    finally show ?thesis .
  qed
qed

lemma three_ids_sections:
  "extract_profile three_ids_profile
     = Inr [\<lparr>heading = ''Moderate Baseline'', level = 1,
              content = ''Total controls: 3\<newline>Families: AC, AU''\<rparr>,
            \<lparr>heading = ''AC Controls'', level = 2, content = ''ac-1, ac-2''\<rparr>,
            \<lparr>heading = ''AU Controls'', level = 2, content = ''au-3''\<rparr>]"
  by code_simp

text \<open>
  Claim C4. For a JSON value that is an OSCAL profile, \<open>_extract_profile\<close> collects the
  ids of all with-ids lists of all imports, repetitions kept. With no id it returns the
  one Section (title, level 1, "No control IDs found in profile."). Otherwise it returns
  the summary Section (title, level 1, the number of collected ids and the sorted family
  keys joined by ", ") followed, in sorted family order, by one level-2 Section
  "family Controls" per family, whose content is the ids of the family, in the order of
  the sorted id list, joined by ", ". The family of an id is the uppercased text before
  its first hyphen. For the ids ac-2, ac-1, au-3 the result is the summary (total 3,
  families "AC, AU"), "AC Controls" with "ac-1, ac-2" and "AU Controls" with "au-3".
\<close>

theorem profile_sections_extracted:
  "(profile_json title imps j \<longrightarrow>
      extract_profile j = Inr (profile_sections title (concat (concat imps))))
   \<and> extract_profile three_ids_profile
       = Inr [\<lparr>heading = ''Moderate Baseline'', level = 1,
                content = ''Total controls: 3\<newline>Families: AC, AU''\<rparr>,
              \<lparr>heading = ''AC Controls'', level = 2, content = ''ac-1, ac-2''\<rparr>,
              \<lparr>heading = ''AU Controls'', level = 2, content = ''au-3''\<rparr>]"
  using extract_profile_spec[of title imps j] three_ids_sections by simp

theorem profile_sections_extracted_witness:
  "profile_json None [[[''si-4'', ''ac-2'']], [[''ac-2''], []]] repeated_ids_profile
   \<and> extract_profile repeated_ids_profile
       = Inr (profile_sections None (concat (concat [[[''si-4'', ''ac-2'']], [[''ac-2''], []]])))
   \<and> extract_profile repeated_ids_profile
       = Inr [\<lparr>heading = ''Unknown Profile'', level = 1,
                content = ''Total controls: 3\<newline>Families: AC, SI''\<rparr>,
              \<lparr>heading = ''AC Controls'', level = 2, content = ''ac-2, ac-2''\<rparr>,
              \<lparr>heading = ''SI Controls'', level = 2, content = ''si-4''\<rparr>]
   \<and> profile_json None [] (JObj [])
   \<and> extract_profile (JObj [])
       = Inr [\<lparr>heading = ''Unknown Profile'', level = 1,
                content = ''No control IDs found in profile.''\<rparr>]"
proof -
  have h: "profile_json None [[[''si-4'', ''ac-2'']], [[''ac-2''], []]] repeated_ids_profile"
    by (simp add: repeated_ids_profile_def)
  have e: "extract_profile repeated_ids_profile
       = Inr (profile_sections None (concat (concat [[[''si-4'', ''ac-2'']], [[''ac-2''], []]])))"
    using profile_sections_extracted[of None "[[[''si-4'', ''ac-2'']], [[''ac-2''], []]]" repeated_ids_profile] h
    by blast
  have v: "extract_profile repeated_ids_profile
       = Inr [\<lparr>heading = ''Unknown Profile'', level = 1,
                content = ''Total controls: 3\<newline>Families: AC, SI''\<rparr>,
              \<lparr>heading = ''AC Controls'', level = 2, content = ''ac-2, ac-2''\<rparr>,
              \<lparr>heading = ''SI Controls'', level = 2, content = ''si-4''\<rparr>]"
    by code_simp
  have n: "extract_profile (JObj [])
       = Inr [\<lparr>heading = ''Unknown Profile'', level = 1,
                content = ''No control IDs found in profile.''\<rparr>]"
    by code_simp
  from h e v n show ?thesis by simp
qed

section \<open>Properties of the per-file pipeline\<close>

lemma json_extension:
  "''.json'' \<notin> set KNOWN_UNSUPPORTED" "''.json'' \<in> set SUPPORTED_EXTENSIONS"
  "''.json'' \<notin> set PDF_EXTENSIONS" "''.json'' \<in> set JSON_EXTENSIONS"
  by (simp_all add: KNOWN_UNSUPPORTED_def SUPPORTED_EXTENSIONS_def PDF_EXTENSIONS_def
        HTML_EXTENSIONS_def JSON_EXTENSIONS_def)

lemma suffix_five_json: "py_lower (path_suffix ''five.json'') = ''.json''"
  by (simp add: py_lower_def path_suffix_def rfind_dot_def lower_char_def
        ascii_lowercase_def ascii_uppercase_def)

lemma suffix_notes_json: "py_lower (path_suffix ''notes.json'') = ''.json''"
  by (simp add: py_lower_def path_suffix_def rfind_dot_def lower_char_def
        ascii_lowercase_def ascii_uppercase_def)

lemma stem_notes_json: "path_stem ''notes.json'' = ''notes''"
  by (simp add: path_stem_def rfind_dot_def)

text \<open>
  Claim C1 (the code at the failing input). A framework directory holds \<open>z.pdf\<close> and
  \<open>five.json\<close>, whose text is the JSON value \<open>5\<close>. The file parses; \<open>"catalog" in data\<close>
  raises \<open>TypeError\<close>, which \<open>_normalize_file\<close> does not catch: the exception leaves
  \<open>normalize_all\<close>, no result is returned, and \<open>z.pdf\<close> is never reached.
\<close>

theorem number_json_aborts_run:
  "extract_oscal_json ''five.json'' (Inr (JNum 5)) = Inl TypeError
   \<and> normalize_all quiet_env [nist] number_tree False Map.empty = Inl TypeError"
  by (simp add: normalize_all_def nist_def SKIP_SUBDIRS_def number_tree_def normalize_file_def
        json_file_def pdf_file_of_def suffix_five_json json_extension dispatch_extract_def
        extract_oscal_json_def IGNORE_NAMES_def)

text \<open>
  On the other paths the sections have content: the pages of a PDF, the accumulators of
  the HTML walk and the fallback for a container without matching elements.
\<close>

lemma pdf_sections_content:
  assumes "extract_pdf (Opened (map Inr texts) None) = Inr sections" and "s \<in> set sections"
  shows "content s \<noteq> [] \<and> level s = 1"
proof -
  have "sections = map (\<lambda>n. page_section (1 + n) (py_strip (texts ! n)))
                    (filter (\<lambda>n. py_strip (texts ! n) \<noteq> []) [0..<length texts])"
    using assms(1) by (simp add: pdf_pages_all_read)
  with assms(2) show ?thesis
    by (auto simp: page_section_def)
qed

lemma flushed_content: "s \<in> set (flushed accs) \<Longrightarrow> content s \<noteq> []"
  by (auto simp: flushed_def)

lemma html_container_sections_content:
  assumes "find_container soup = Some container"
    and "extract_html nm stem (Inr soup) = Inr sections" and "s \<in> set sections"
  shows "content s \<noteq> []"
  using assms
  by (auto simp: extract_html_def walk_flushed Let_def flushed_content split: if_splits)

text \<open>
  A profile that lists the empty string as a control id gives a family Section whose
  content is empty, too.
\<close>

lemma profile_empty_id_section:
  "extract_profile (JObj [(''imports'', JArr [JObj [(''include-controls'',
       JArr [JObj [(''with-ids'', JArr [JStr []])]])]])])
     = Inr [\<lparr>heading = ''Unknown Profile'', level = 1,
              content = ''Total controls: 1\<newline>Families: ''\<rparr>,
            \<lparr>heading = '' Controls'', level = 2, content = []\<rparr>]"
  by code_simp

text \<open>
  Claim C2 (the code at the failing input). A saved page without any tag (an empty file,
  or only a comment) has no container; the extractor returns one Section whose content is
  the empty string. The fallback for a container with no matching element tests
  \<open>if raw\<close> before it emits; this one does not.
\<close>

theorem html_without_container_empty_section:
  "find_container [] = None
   \<and> extract_html ''empty.html'' ''empty'' (Inr [])
       = Inr [\<lparr>heading = ''empty'', level = 1, content = []\<rparr>]
   \<and> find_container [Comment ''saved page''] = None
   \<and> extract_html ''empty.html'' ''empty'' (Inr [Comment ''saved page''])
       = Inr [\<lparr>heading = ''empty'', level = 1, content = []\<rparr>]"
  by (simp add: find_container_def soup_find_def extract_html_def soup_get_text_def
        stripped_strings_def)

text \<open>
  Claim C3, as stated, at a concrete input: \<open>notes.json\<close> parses to an object with neither
  key, both its artifacts exist and force is not set; the file is recorded as skipped, not
  as unsupported.
\<close>

theorem json_without_keys_skipped:
  "as_json notes_json = Inr (JObj [(''title'', JStr ''Notes'')])
   \<and> normalize_file quiet_env notes_json ''nist-800-53'' ''nist'' False both_artifacts
       = Inr ((''skipped'', ''notes.json''), both_artifacts)"
  by (simp add: normalize_file_def notes_json_def json_file_def suffix_notes_json stem_notes_json
        json_extension both_artifacts_def Let_def)

text \<open>
  Claim C3, amended. A JSON file that reaches extraction (force is set, or one of its two
  artifacts is missing) and parses to an object with neither a "catalog" nor a "profile"
  key is classified as unsupported, not as an error: the extractor raises the
  unsupported-type signal (so neither catalog nor profile extraction runs), and the
  destination tree is left as it was.
\<close>

theorem json_without_keys_unsupported:
  assumes "py_lower (path_suffix (name p)) = ''.json''"
    and "as_json p = Inr (JObj kvs)"
    and "map_of kvs ''catalog'' = None" and "map_of kvs ''profile'' = None"
    and "force \<or> fs (sub, path_stem (name p) @ ''.md'') = None
               \<or> fs (sub, path_stem (name p) @ ''.json'') = None"
  shows "normalize_file e p sub fw force fs = Inr ((''unsupported'', name p), fs)
       \<and> extract_oscal_json (name p) (as_json p)
           = Inl (UnsupportedOscalType (''not a recognized OSCAL catalog or profile: '' @ name p))"
proof -
  have x: "extract_oscal_json (name p) (as_json p)
           = Inl (UnsupportedOscalType (''not a recognized OSCAL catalog or profile: '' @ name p))"
    using assms(2-4) by (simp add: extract_oscal_json_def)
  have "dispatch_extract ''.json'' p = extract_oscal_json (name p) (as_json p)"
    by (simp add: dispatch_extract_def json_extension)
  with x assms(1,5) show ?thesis
    by (auto simp: normalize_file_def json_extension Let_def)
qed

theorem json_without_keys_unsupported_witness:
  "py_lower (path_suffix (name notes_json)) = ''.json''
   \<and> as_json notes_json = Inr (JObj [(''title'', JStr ''Notes'')])
   \<and> map_of [(''title'', JStr ''Notes'')] ''catalog'' = None
   \<and> map_of [(''title'', JStr ''Notes'')] ''profile'' = None
   \<and> normalize_file quiet_env notes_json ''nist-800-53'' ''nist'' False Map.empty
       = Inr ((''unsupported'', ''notes.json''), Map.empty)"
  using json_without_keys_unsupported[of notes_json "[(''title'', JStr ''Notes'')]" False
          Map.empty "''nist-800-53''" quiet_env "''nist''"]
  by (simp add: notes_json_def json_file_def suffix_notes_json)

section \<open>Properties of the run\<close>

lemma md_json_distinct: "s @ ''.md'' \<noteq> t @ ''.json''"
proof
  assume "s @ ''.md'' = t @ ''.json''"
  then have "last (s @ ''.md'') = last (t @ ''.json'')" by simp
  then show False by simp
qed

lemma normalize_file_skip:
  assumes "supported (name p)" and "has_both fs sub (name p)"
  shows "normalize_file e p sub fw False fs = Inr ((''skipped'', name p), fs)"
  using assms by (simp add: normalize_file_def supported_def has_both_def Let_def)

lemma normalize_file_cases:
  assumes "normalize_file e p sub fw force fs = Inr ((st, m), fs')"
  shows "(st \<noteq> ''processed'' \<and>
            (fs' = fs \<or> (\<not> (\<not> force \<and> has_both fs sub (name p)) \<and>
                        (\<exists>a. fs' = fs((sub, path_stem (name p) @ ''.md'') \<mapsto> a)))))
         \<or> (st = ''processed'' \<and> m = name p \<and> supported (name p) \<and>
              \<not> (\<not> force \<and> has_both fs sub (name p)) \<and>
              (\<exists>a b. fs' = fs((sub, path_stem (name p) @ ''.md'') \<mapsto> a,
                               (sub, path_stem (name p) @ ''.json'') \<mapsto> b)))"
  using assms
  by (auto simp: normalize_file_def supported_def has_both_def Let_def
           split: if_splits sum.splits exn.splits option.splits)


lemma normalize_file_grows:
  assumes "normalize_file e p sub fw force fs = Inr ((st, m), fs')" and "fs k \<noteq> None"
  shows "fs' k \<noteq> None"
  using normalize_file_cases[OF assms(1)] assms(2) by auto

lemma normalize_file_processed:
  assumes "normalize_file e p sub fw force fs = Inr ((''processed'', m), fs')"
  shows "m = name p \<and> supported (name p) \<and> has_both fs' sub (name p)"
  using normalize_file_cases[OF assms] by (auto simp: has_both_def)

lemma normalize_file_frame:
  assumes "normalize_file e p sub fw False fs = Inr ((st, m), fs')"
    and "fs (d, s @ ''.md'') = Some a" and "fs (d, s @ ''.json'') = Some b"
  shows "fs' (d, s @ ''.md'') = Some a \<and> fs' (d, s @ ''.json'') = Some b"
proof (cases "d = sub \<and> s = path_stem (name p)")
  case True
  with assms(2,3) have "has_both fs sub (name p)"
    by (simp add: has_both_def)
  with normalize_file_cases[OF assms(1)] have "fs' = fs" by auto
  with assms(2,3) show ?thesis by simp
next
  case False
  then have "(d, s @ ''.md'') \<noteq> (sub, path_stem (name p) @ ''.md'')"
    "(d, s @ ''.json'') \<noteq> (sub, path_stem (name p) @ ''.json'')"
    "(d, s @ ''.md'') \<noteq> (sub, path_stem (name p) @ ''.json'')"
    "(d, s @ ''.json'') \<noteq> (sub, path_stem (name p) @ ''.md'')"
    using md_json_distinct[of s "path_stem (name p)"] md_json_distinct[of "path_stem (name p)" s]
    by auto
  with normalize_file_cases[OF assms(1)] assms(2,3) show ?thesis
    by auto
qed

lemma record_status_lists:
  "processed (record_status r p st m) = (if st = ''processed'' then processed r @ [m] else processed r)"
  "skipped (record_status r p st m) = (if st = ''skipped'' then skipped r @ [m] else skipped r)"
  by (simp_all add: record_status_def)

lemma normalize_paths_step:
  assumes "visited p"
  shows "normalize_paths e svc force (p # rest) (r, fs)
       = (case normalize_file e p (subdir svc) (key svc) force fs of
            Inl exc \<Rightarrow> Inl exc
          | Inr ((st, m), fs') \<Rightarrow> normalize_paths e svc force rest (record_status r p st m, fs'))"
  using assms by (simp add: visited_def)

lemma normalize_paths_skip:
  assumes "\<not> visited p"
  shows "normalize_paths e svc force (p # rest) (r, fs) = normalize_paths e svc force rest (r, fs)"
  using assms by (auto simp: visited_def)

lemma normalize_paths_first:
  assumes "normalize_paths e svc force ps (r, fs) = Inr (r', fs')"
  shows "(\<forall>k. fs k \<noteq> None \<longrightarrow> fs' k \<noteq> None)
       \<and> set (skipped r) \<subseteq> set (skipped r')
       \<and> (\<forall>n\<in>set (processed r'). n \<in> set (processed r) \<or>
             (\<exists>p\<in>set ps. visited p \<and> name p = n \<and> supported n \<and> has_both fs' (subdir svc) n))"
  using assms
proof (induction ps arbitrary: r fs)
  case Nil
  then show ?case by simp
next
  case (Cons p ps)
  show ?case
  proof (cases "visited p")
    case False
    with Cons.prems have "normalize_paths e svc force ps (r, fs) = Inr (r', fs')"
      by (simp add: normalize_paths_skip del: normalize_paths.simps)
    from Cons.IH[OF this] show ?thesis by auto
  next
    case True
    with Cons.prems obtain st m fs1 where
      nf: "normalize_file e p (subdir svc) (key svc) force fs = Inr ((st, m), fs1)"
      and rest: "normalize_paths e svc force ps (record_status r p st m, fs1) = Inr (r', fs')"
      by (auto simp: normalize_paths_step simp del: normalize_paths.simps split: sum.splits)
    note ih = Cons.IH[OF rest]
    have grow: "\<forall>k. fs k \<noteq> None \<longrightarrow> fs' k \<noteq> None"
      using ih normalize_file_grows[OF nf] by blast
    have sk: "set (skipped r) \<subseteq> set (skipped r')"
      using ih by (auto simp: record_status_lists split: if_splits)
    have "n \<in> set (processed r) \<or>
          (\<exists>q\<in>set (p # ps). visited q \<and> name q = n \<and> supported n \<and> has_both fs' (subdir svc) n)"
      if n: "n \<in> set (processed r')" for n
    proof -
      from ih n consider (old) "n \<in> set (processed (record_status r p st m))"
        | (new) "\<exists>q\<in>set ps. visited q \<and> name q = n \<and> supported n \<and> has_both fs' (subdir svc) n"
        by blast
      then show ?thesis
      proof cases
        case new
        then show ?thesis by auto
      next
        case old
        show ?thesis
        proof (cases "st = ''processed'' \<and> n = m")
          case False
          with old show ?thesis by (auto simp: record_status_lists split: if_splits)
        next
          case True
          with nf have "m = name p \<and> supported (name p) \<and> has_both fs1 (subdir svc) (name p)"
            using normalize_file_processed by blast
          moreover have "has_both fs' (subdir svc) (name p)" if "has_both fs1 (subdir svc) (name p)"
            using that ih by (auto simp: has_both_def)
          ultimately show ?thesis
            using True \<open>visited p\<close> by auto
        qed
      qed
    qed
    with grow sk show ?thesis by blast
  qed
qed

lemma normalize_paths_second:
  assumes "normalize_paths e svc False ps (r, fs) = Inr (r', fs')"
    and "p \<in> set ps" and "visited p" and "supported (name p)" and "has_both fs (subdir svc) (name p)"
  shows "name p \<in> set (skipped r')"
  using assms
proof (induction ps arbitrary: r fs)
  case Nil
  then show ?case by simp
next
  case (Cons q ps)
  show ?case
  proof (cases "visited q")
    case False
    with Cons.prems have "normalize_paths e svc False ps (r, fs) = Inr (r', fs')" "p \<in> set ps"
      by (auto simp: normalize_paths_skip simp del: normalize_paths.simps)
    then show ?thesis
      using Cons.prems by (intro Cons.IH) simp_all
  next
    case True
    with Cons.prems(1) obtain st m fs1 where
      nf: "normalize_file e q (subdir svc) (key svc) False fs = Inr ((st, m), fs1)"
      and rest: "normalize_paths e svc False ps (record_status r q st m, fs1) = Inr (r', fs')"
      by (auto simp: normalize_paths_step simp del: normalize_paths.simps split: sum.splits)
    show ?thesis
    proof (cases "p = q")
      case True
      with Cons.prems nf have "st = ''skipped''" "m = name p"
        by (simp_all add: normalize_file_skip)
      then have "name p \<in> set (skipped (record_status r q st m))"
        by (simp add: record_status_lists)
      with normalize_paths_first[OF rest] show ?thesis by blast
    next
      case False
      with Cons.prems have "p \<in> set ps" by simp
      moreover have "has_both fs1 (subdir svc) (name p)"
        using Cons.prems(5) normalize_file_grows[OF nf] by (simp add: has_both_def)
      ultimately show ?thesis
        using rest Cons.prems by (intro Cons.IH) simp_all
    qed
  qed
qed

lemma normalize_paths_frame:
  assumes "normalize_paths e svc False ps (r, fs) = Inr (r', fs')"
    and "fs (d, s @ ''.md'') = Some a" and "fs (d, s @ ''.json'') = Some b"
  shows "fs' (d, s @ ''.md'') = Some a \<and> fs' (d, s @ ''.json'') = Some b"
  using assms
proof (induction ps arbitrary: r fs)
  case Nil
  then show ?case by simp
next
  case (Cons q ps)
  show ?case
  proof (cases "visited q")
    case False
    with Cons.prems have "normalize_paths e svc False ps (r, fs) = Inr (r', fs')"
      by (simp add: normalize_paths_skip del: normalize_paths.simps)
    then show ?thesis
      using Cons.prems(2,3) by (rule Cons.IH)
  next
    case True
    with Cons.prems(1) obtain st m fs1 where
      nf: "normalize_file e q (subdir svc) (key svc) False fs = Inr ((st, m), fs1)"
      and rest: "normalize_paths e svc False ps (record_status r q st m, fs1) = Inr (r', fs')"
      by (auto simp: normalize_paths_step simp del: normalize_paths.simps split: sum.splits)
    from normalize_file_frame[OF nf Cons.prems(2,3)]
    have "fs1 (d, s @ ''.md'') = Some a" "fs1 (d, s @ ''.json'') = Some b"
      by simp_all
    with rest show ?thesis
      by (rule Cons.IH)
  qed
qed


lemma normalize_services_step:
  "normalize_services e tree force (svc # rest) st = Inr st' \<Longrightarrow>
   (subdir svc \<in> set SKIP_SUBDIRS \<or> tree (subdir svc) = Missing) \<and>
     normalize_services e tree force rest st = Inr st'
   \<or> subdir svc \<notin> set SKIP_SUBDIRS \<and>
     (\<exists>paths st1. tree (subdir svc) = Listing paths \<and>
        normalize_paths e svc force (sort_key (\<lambda>p. parent p @ [name p]) paths) st = Inr st1 \<and>
        normalize_services e tree force rest st1 = Inr st')"
  by (auto split: if_splits source_dir.splits sum.splits)

lemma walked_Cons:
  "walked (s # svcs) tree svc p \<longleftrightarrow>
     (svc = s \<and> subdir s \<notin> set SKIP_SUBDIRS \<and>
        (case tree (subdir s) of Listing paths \<Rightarrow> p \<in> set paths \<and> visited p | _ \<Rightarrow> False))
     \<or> walked svcs tree svc p"
  by (auto simp: walked_def)

lemma walked_tail: "walked svcs tree svc p \<Longrightarrow> walked (s # svcs) tree svc p"
  by (simp add: walked_Cons)

lemma normalize_services_first:
  assumes "normalize_services e tree force svcs (r, fs) = Inr (r', fs')"
  shows "(\<forall>k. fs k \<noteq> None \<longrightarrow> fs' k \<noteq> None)
       \<and> set (skipped r) \<subseteq> set (skipped r')
       \<and> (\<forall>n\<in>set (processed r'). n \<in> set (processed r) \<or>
             (\<exists>svc p. walked svcs tree svc p \<and> name p = n \<and> supported n
                        \<and> has_both fs' (subdir svc) n))"
  using assms
proof (induction svcs arbitrary: r fs)
  case Nil
  then show ?case by simp
next
  case (Cons s svcs)
  from normalize_services_step[OF Cons.prems]
  consider (skip) "normalize_services e tree force svcs (r, fs) = Inr (r', fs')"
    | (walk) paths r1 fs1 where "subdir s \<notin> set SKIP_SUBDIRS" "tree (subdir s) = Listing paths"
        "normalize_paths e s force (sort_key (\<lambda>p. parent p @ [name p]) paths) (r, fs) = Inr (r1, fs1)"
        "normalize_services e tree force svcs (r1, fs1) = Inr (r', fs')"
    by auto
  then show ?case
  proof cases
    case skip
    from Cons.IH[OF skip] show ?thesis
      by (blast intro: walked_tail)
  next
    case walk
    note inner = normalize_paths_first[OF walk(3)]
    note ih = Cons.IH[OF walk(4)]
    have grow: "\<forall>k. fs k \<noteq> None \<longrightarrow> fs' k \<noteq> None"
      using inner ih by blast
    have sk: "set (skipped r) \<subseteq> set (skipped r')"
      using inner ih by blast
    have "n \<in> set (processed r) \<or>
          (\<exists>svc p. walked (s # svcs) tree svc p \<and> name p = n \<and> supported n
                     \<and> has_both fs' (subdir svc) n)"
      if n: "n \<in> set (processed r')" for n
    proof -
      from ih n consider (mid) "n \<in> set (processed r1)"
        | (late) "\<exists>svc p. walked svcs tree svc p \<and> name p = n \<and> supported n
                           \<and> has_both fs' (subdir svc) n"
        by blast
      then show ?thesis
      proof cases
        case late
        then show ?thesis by (blast intro: walked_tail)
      next
        case mid
        with inner consider (old) "n \<in> set (processed r)"
          | (here) p where "p \<in> set paths" "visited p" "name p = n" "supported n"
              "has_both fs1 (subdir s) n"
          by auto
        then show ?thesis
        proof cases
          case old
          then show ?thesis by simp
        next
          case here
          have "has_both fs' (subdir s) n"
            using here(5) ih by (auto simp: has_both_def)
          moreover have "walked (s # svcs) tree s p"
            using here(1,2) walk(1,2) by (simp add: walked_Cons[of s svcs])
          ultimately show ?thesis
            using here(3,4) by blast
        qed
      qed
    qed
    with grow sk show ?thesis by blast
  qed
qed

lemma normalize_services_second:
  assumes "normalize_services e tree False svcs (r, fs) = Inr (r', fs')"
    and "walked svcs tree svc p" and "supported (name p)" and "has_both fs (subdir svc) (name p)"
  shows "name p \<in> set (skipped r')"
  using assms
proof (induction svcs arbitrary: r fs)
  case Nil
  then show ?case by (simp add: walked_def)
next
  case (Cons s svcs)
  from normalize_services_step[OF Cons.prems(1)]
  consider (skip) "subdir s \<in> set SKIP_SUBDIRS \<or> tree (subdir s) = Missing"
        "normalize_services e tree False svcs (r, fs) = Inr (r', fs')"
    | (walk) paths r1 fs1 where "subdir s \<notin> set SKIP_SUBDIRS" "tree (subdir s) = Listing paths"
        "normalize_paths e s False (sort_key (\<lambda>p. parent p @ [name p]) paths) (r, fs) = Inr (r1, fs1)"
        "normalize_services e tree False svcs (r1, fs1) = Inr (r', fs')"
    by auto
  then show ?case
  proof cases
    case skip
    with Cons.prems(2) have "walked svcs tree svc p"
      by (auto simp: walked_Cons[of s svcs])
    with skip(2) show ?thesis
      using Cons.prems(3,4) by (rule Cons.IH)
  next
    case walk
    show ?thesis
    proof (cases "svc = s \<and> p \<in> set paths \<and> visited p")
      case True
      then have "name p \<in> set (skipped r1)"
        using normalize_paths_second[OF walk(3), of p] Cons.prems(3,4) by simp
      with normalize_services_first[OF walk(4)] show ?thesis by blast
    next
      case False
      with Cons.prems(2) walk(2) have w: "walked svcs tree svc p"
        by (auto simp: walked_Cons[of s svcs])
      have "has_both fs1 (subdir svc) (name p)"
        using Cons.prems(4) normalize_paths_first[OF walk(3)] by (auto simp: has_both_def)
      with walk(4) w Cons.prems(3) show ?thesis
        by (rule Cons.IH)
    qed
  qed
qed

lemma normalize_services_frame:
  assumes "normalize_services e tree False svcs (r, fs) = Inr (r', fs')"
    and "fs (d, s @ ''.md'') = Some a" and "fs (d, s @ ''.json'') = Some b"
  shows "fs' (d, s @ ''.md'') = Some a \<and> fs' (d, s @ ''.json'') = Some b"
  using assms
proof (induction svcs arbitrary: r fs)
  case Nil
  then show ?case by simp
next
  case (Cons svc svcs)
  from normalize_services_step[OF Cons.prems(1)]
  consider (skip) "normalize_services e tree False svcs (r, fs) = Inr (r', fs')"
    | (walk) paths r1 fs1 where
        "normalize_paths e svc False (sort_key (\<lambda>p. parent p @ [name p]) paths) (r, fs) = Inr (r1, fs1)"
        "normalize_services e tree False svcs (r1, fs1) = Inr (r', fs')"
    by auto
  then show ?case
  proof cases
    case skip
    then show ?thesis
      using Cons.prems(2,3) by (rule Cons.IH)
  next
    case walk
    from normalize_paths_frame[OF walk(1) Cons.prems(2,3)]
    have "fs1 (d, s @ ''.md'') = Some a" "fs1 (d, s @ ''.json'') = Some b"
      by simp_all
    with walk(2) show ?thesis
      by (rule Cons.IH)
  qed
qed


lemma normalize_file_forced:
  "map_sum id fst (normalize_file e p sub fw True fs) = map_sum id fst (normalize_file e p sub fw True fs')"
  by (auto simp: normalize_file_def Let_def split: sum.splits exn.splits option.splits)

lemma normalize_file_forced_not_skipped:
  "normalize_file e p sub fw True fs \<noteq> Inr ((''skipped'', m), fs')"
  by (auto simp: normalize_file_def Let_def split: sum.splits exn.splits option.splits)

lemma normalize_file_forced_processed:
  assumes "supported (name p)"
    and "dispatch_extract (py_lower (path_suffix (name p))) p = Inr sections" and "sections \<noteq> []"
    and "mkdir_error e sub = None"
    and "write_error e (sub, path_stem (name p) @ ''.md'') = None"
    and "write_error e (sub, path_stem (name p) @ ''.json'') = None"
  shows "normalize_file e p sub fw True fs
       = Inr ((''processed'', name p),
              fs((sub, path_stem (name p) @ ''.md'') \<mapsto>
                   MarkdownFile (write_markdown sections fw (name p) (now e (sub, name p))),
                 (sub, path_stem (name p) @ ''.json'') \<mapsto>
                   JsonFile (write_json sections fw (name p) (now e (sub, name p)))))"
  using assms by (simp add: normalize_file_def supported_def Let_def)

text \<open>
  Claim C8. A file with a supported extension whose two destination artifacts exist is,
  with force false, recorded as skipped and the destination tree is returned as it was,
  whatever the file holds and whatever the environment is: no extractor result and no
  write enters the outcome. Hence, when a run (forced or not) is followed by a second run
  without force over the same source tree, every file name the first run recorded as
  processed is recorded as skipped by the second, both artifacts of each of them exist
  after the first run, and every destination whose two artifacts exist after the first
  run holds the same two artifacts after the second. With force true the outcome of a
  file does not depend on the destination tree and is never "skipped"; when extraction
  gives sections and the writes succeed, both artifacts are written anew.
\<close>

theorem skip_unless_forced:
  "(supported (name p) \<and> has_both fs sub (name p) \<longrightarrow>
      normalize_file e p sub fw False fs = Inr ((''skipped'', name p), fs))
   \<and> (normalize_all e1 svcs tree force fs0 = Inr (r1, fs1) \<and>
      normalize_all e2 svcs tree False fs1 = Inr (r2, fs2) \<longrightarrow>
        set (processed r1) \<subseteq> set (skipped r2)
        \<and> (\<forall>n\<in>set (processed r1). \<exists>d. has_both fs1 d n)
        \<and> (\<forall>d s a b. fs1 (d, s @ ''.md'') = Some a \<and> fs1 (d, s @ ''.json'') = Some b \<longrightarrow>
              fs2 (d, s @ ''.md'') = Some a \<and> fs2 (d, s @ ''.json'') = Some b))
   \<and> map_sum id fst (normalize_file e p sub fw True fs)
       = map_sum id fst (normalize_file e p sub fw True fs')
   \<and> normalize_file e p sub fw True fs \<noteq> Inr ((''skipped'', m), fs')
   \<and> (supported (name p) \<and>
      dispatch_extract (py_lower (path_suffix (name p))) p = Inr sections \<and> sections \<noteq> [] \<and>
      mkdir_error e sub = None \<and>
      write_error e (sub, path_stem (name p) @ ''.md'') = None \<and>
      write_error e (sub, path_stem (name p) @ ''.json'') = None \<longrightarrow>
        normalize_file e p sub fw True fs
          = Inr ((''processed'', name p),
                 fs((sub, path_stem (name p) @ ''.md'') \<mapsto>
                      MarkdownFile (write_markdown sections fw (name p) (now e (sub, name p))),
                    (sub, path_stem (name p) @ ''.json'') \<mapsto>
                      JsonFile (write_json sections fw (name p) (now e (sub, name p))))))"
proof -
  have two_runs: "set (processed r1) \<subseteq> set (skipped r2)
        \<and> (\<forall>n\<in>set (processed r1). \<exists>d. has_both fs1 d n)
        \<and> (\<forall>d s a b. fs1 (d, s @ ''.md'') = Some a \<and> fs1 (d, s @ ''.json'') = Some b \<longrightarrow>
              fs2 (d, s @ ''.md'') = Some a \<and> fs2 (d, s @ ''.json'') = Some b)"
    if first: "normalize_all e1 svcs tree force fs0 = Inr (r1, fs1)"
      and second: "normalize_all e2 svcs tree False fs1 = Inr (r2, fs2)"
  proof -
    let ?r0 = "\<lparr>processed = [], skipped = [], errors = [], unsupported = []\<rparr>"
    from first have f: "normalize_services e1 tree force svcs (?r0, fs0) = Inr (r1, fs1)"
      by (simp add: normalize_all_def)
    from second have g: "normalize_services e2 tree False svcs (?r0, fs1) = Inr (r2, fs2)"
      by (simp add: normalize_all_def)
    have w: "\<exists>svc p. walked svcs tree svc p \<and> name p = n \<and> supported n \<and> has_both fs1 (subdir svc) n"
      if "n \<in> set (processed r1)" for n
      using normalize_services_first[OF f] that by auto
    have "n \<in> set (skipped r2)" if "n \<in> set (processed r1)" for n
      using w[OF that] normalize_services_second[OF g] by blast
    moreover have "\<exists>d. has_both fs1 d n" if "n \<in> set (processed r1)" for n
      using w[OF that] by blast
    ultimately show ?thesis
      using normalize_services_frame[OF g] by blast
  qed
  show ?thesis
    using two_runs normalize_file_skip[of p fs sub e fw] normalize_file_forced[of e p sub fw fs fs']
      normalize_file_forced_not_skipped[of e p sub fw fs m fs']
      normalize_file_forced_processed[of p sections e sub fw fs]
    by blast
qed


lemma z_pdf_paths:
  "py_lower (path_suffix ''z.pdf'') = ''.pdf''" "path_stem ''z.pdf'' = ''z''"
  by (simp_all add: py_lower_def path_suffix_def path_stem_def rfind_dot_def lower_char_def
        ascii_lowercase_def ascii_uppercase_def)

lemma pdf_extension:
  "''.pdf'' \<notin> set KNOWN_UNSUPPORTED" "''.pdf'' \<in> set SUPPORTED_EXTENSIONS"
  "''.pdf'' \<in> set PDF_EXTENSIONS"
  by (simp_all add: KNOWN_UNSUPPORTED_def SUPPORTED_EXTENSIONS_def PDF_EXTENSIONS_def)

lemma str_nat_one: "str_nat (Suc 0) = ''1''"
  by code_simp

lemma z_pdf_extract: "dispatch_extract ''.pdf'' z_pdf = Inr z_sections"
  by (simp add: dispatch_extract_def pdf_extension z_pdf_def pdf_file_of_def z_sections_def
        page_section_def py_strip_def py_isspace_def str_nat_one)

lemma z_pdf_first_run:
  "normalize_all quiet_env [nist] pdf_tree False Map.empty
     = Inr (\<lparr>processed = [''z.pdf''], skipped = [], errors = [], unsupported = []\<rparr>, z_artifacts)"
proof -
  have "normalize_file quiet_env z_pdf ''nist-800-53'' ''nist'' False Map.empty
      = Inr ((''processed'', ''z.pdf''), z_artifacts)"
    using z_pdf_extract
    by (simp add: normalize_file_def Let_def z_pdf_paths pdf_extension z_artifacts_def quiet_env_def
          z_pdf_def pdf_file_of_def z_sections_def)
  moreover have "name z_pdf = ''z.pdf''" "is_file z_pdf"
    by (simp_all add: z_pdf_def pdf_file_of_def)
  ultimately show ?thesis
    by (simp add: normalize_all_def nist_def SKIP_SUBDIRS_def pdf_tree_def IGNORE_NAMES_def
          record_status_def)
qed

lemma z_pdf_second_run:
  "normalize_all quiet_env [nist] pdf_tree False z_artifacts
     = Inr (\<lparr>processed = [], skipped = [''z.pdf''], errors = [], unsupported = []\<rparr>, z_artifacts)"
proof -
  have "normalize_file quiet_env z_pdf ''nist-800-53'' ''nist'' False z_artifacts
      = Inr ((''skipped'', ''z.pdf''), z_artifacts)"
    by (simp add: normalize_file_def Let_def z_pdf_paths pdf_extension z_artifacts_def
          z_pdf_def pdf_file_of_def)
  moreover have "name z_pdf = ''z.pdf''" "is_file z_pdf"
    by (simp_all add: z_pdf_def pdf_file_of_def)
  ultimately show ?thesis
    by (simp add: normalize_all_def nist_def SKIP_SUBDIRS_def pdf_tree_def IGNORE_NAMES_def
          record_status_def)
qed

theorem skip_unless_forced_witness:
  "supported (name z_pdf) \<and> has_both z_artifacts ''nist-800-53'' (name z_pdf)
   \<and> normalize_file quiet_env z_pdf ''nist-800-53'' ''nist'' False z_artifacts
       = Inr ((''skipped'', name z_pdf), z_artifacts)
   \<and> normalize_all quiet_env [nist] pdf_tree False Map.empty
       = Inr (\<lparr>processed = [''z.pdf''], skipped = [], errors = [], unsupported = []\<rparr>, z_artifacts)
   \<and> normalize_all quiet_env [nist] pdf_tree False z_artifacts
       = Inr (\<lparr>processed = [], skipped = [''z.pdf''], errors = [], unsupported = []\<rparr>, z_artifacts)
   \<and> set (processed \<lparr>processed = [''z.pdf''], skipped = [], errors = [], unsupported = []\<rparr>)
       \<subseteq> set (skipped \<lparr>processed = [], skipped = [''z.pdf''], errors = [], unsupported = []\<rparr>)
   \<and> dispatch_extract (py_lower (path_suffix (name z_pdf))) z_pdf = Inr z_sections
   \<and> z_sections \<noteq> []
   \<and> normalize_file quiet_env z_pdf ''nist-800-53'' ''nist'' True z_artifacts
       = Inr ((''processed'', name z_pdf),
              z_artifacts((''nist-800-53'', path_stem (name z_pdf) @ ''.md'') \<mapsto>
                   MarkdownFile (write_markdown z_sections ''nist'' (name z_pdf)
                                   (now quiet_env (''nist-800-53'', name z_pdf))),
                 (''nist-800-53'', path_stem (name z_pdf) @ ''.json'') \<mapsto>
                   JsonFile (write_json z_sections ''nist'' (name z_pdf)
                               (now quiet_env (''nist-800-53'', name z_pdf)))))"
proof -
  let ?r1 = "\<lparr>processed = [''z.pdf''], skipped = [], errors = [], unsupported = []\<rparr>"
  let ?r2 = "\<lparr>processed = [], skipped = [''z.pdf''], errors = [], unsupported = []\<rparr>"
  have n: "name z_pdf = ''z.pdf''"
    by (simp add: z_pdf_def pdf_file_of_def)
  have a: "supported (name z_pdf)" "has_both z_artifacts ''nist-800-53'' (name z_pdf)"
    by (simp_all add: n supported_def has_both_def z_pdf_paths pdf_extension z_artifacts_def)
  have x: "dispatch_extract (py_lower (path_suffix (name z_pdf))) z_pdf = Inr z_sections"
    "z_sections \<noteq> []"
    by (simp_all add: n z_pdf_paths z_pdf_extract z_sections_def)
  have q: "mkdir_error quiet_env ''nist-800-53'' = None"
    "write_error quiet_env (''nist-800-53'', path_stem (name z_pdf) @ ''.md'') = None"
    "write_error quiet_env (''nist-800-53'', path_stem (name z_pdf) @ ''.json'') = None"
    by (simp_all add: quiet_env_def)
  note inst = skip_unless_forced[of z_pdf z_artifacts "''nist-800-53''" quiet_env "''nist''"
      quiet_env "[nist]" pdf_tree False Map.empty ?r1 z_artifacts quiet_env ?r2 z_artifacts
      z_artifacts "''z.pdf''" z_sections]
  from inst a have "normalize_file quiet_env z_pdf ''nist-800-53'' ''nist'' False z_artifacts
       = Inr ((''skipped'', name z_pdf), z_artifacts)"
    by blast
  moreover from inst z_pdf_first_run z_pdf_second_run
  have "set (processed ?r1) \<subseteq> set (skipped ?r2)"
    by blast
  moreover from inst a x q
  have "normalize_file quiet_env z_pdf ''nist-800-53'' ''nist'' True z_artifacts
       = Inr ((''processed'', name z_pdf),
              z_artifacts((''nist-800-53'', path_stem (name z_pdf) @ ''.md'') \<mapsto>
                   MarkdownFile (write_markdown z_sections ''nist'' (name z_pdf)
                                   (now quiet_env (''nist-800-53'', name z_pdf))),
                 (''nist-800-53'', path_stem (name z_pdf) @ ''.json'') \<mapsto>
                   JsonFile (write_json z_sections ''nist'' (name z_pdf)
                               (now quiet_env (''nist-800-53'', name z_pdf)))))"
    by blast
  ultimately show ?thesis
    using a x z_pdf_first_run z_pdf_second_run by blast
qed

section \<open>Properties of the JSON writer\<close>

lemma json_section_inverse: "json_section (section_json s) = Some s"
  by (simp add: section_json_def)

lemma all_some_sections: "all_some (map (json_section \<circ> section_json) xs) = Some xs"
  by (induction xs) (simp_all add: json_section_inverse)

text \<open>
  Claim C9. The JSON writer's object holds the sections array verbatim (each section as
  its heading, level and content), the three metadata fields, and \<open>full_text\<close>, the
  sections' contents joined in order by a blank line. Reading the sections array of a
  produced artifact back gives the sections, and writing them again under the same
  metadata gives the same artifact.
\<close>

theorem write_json_round_trip:
  "py_getitem (write_json sections fw src at) ''sections'' = Inr (JArr (map section_json sections))
   \<and> py_getitem (write_json sections fw src at) ''full_text''
       = Inr (JStr (py_join (''\<newline>'' @ ''\<newline>'') (map content sections)))
   \<and> py_getitem (write_json sections fw src at) ''source_file'' = Inr (JStr src)
   \<and> py_getitem (write_json sections fw src at) ''framework'' = Inr (JStr fw)
   \<and> py_getitem (write_json sections fw src at) ''extracted_at'' = Inr (JStr at)
   \<and> artifact_sections (write_json sections fw src at) = Some sections
   \<and> write_json (the (artifact_sections (write_json sections fw src at))) fw src at
       = write_json sections fw src at"
  by (simp add: write_json_def artifact_sections_def all_some_sections Let_def)

end
